theory Spec2Isabelle
  imports Main
begin

unbundle bit_operations_syntax

section \<open>Values of the host language\<close>

text \<open>
  The execution class (\<^verbatim>\<open>pentaho/action/Execution\<close>, file \<^verbatim>\<open>src/unnamed/part_001\<close>)
  receives arbitrary JavaScript values as results and as rejection reasons. A value that
  comes from outside the class (a caller, a hook, an action) is a \<open>uval\<close>; an error object
  carries its identity, the two \<^verbatim>\<open>instanceof\<close> tests the class performs on it
  (\<^verbatim>\<open>UserError\<close>, \<^verbatim>\<open>RuntimeError\<close>) and its message. A number matters only through its
  truthiness, so it is an integer or \<^verbatim>\<open>NaN\<close>. \<open>VObject i c\<close> is an object that is neither
  an \<^verbatim>\<open>Error\<close> nor a thenable and has no property \<^verbatim>\<open>stack\<close>; \<open>c\<close> says whether it can be
  converted to a string (an object made by \<^verbatim>\<open>Object.create(null)\<close> cannot: the conversion
  throws a \<^verbatim>\<open>TypeError\<close>). \<open>VThenable\<close> is an object with a method \<^verbatim>\<open>then\<close>, such as a
  promise.
\<close>

datatype uval =
    VUndefined
  | VNull
  | VBool bool
  | VNum int
  | VNaN
  | VStr string
  | VError nat bool bool string
  | VObject nat bool
  | VThenable nat

text \<open>
  Modelled from the spec: the error classes \<^verbatim>\<open>pentaho/lang/UserError\<close>,
  \<^verbatim>\<open>ArgumentInvalidTypeError\<close> and \<^verbatim>\<open>OperationInvalidError\<close> are not under src/. The spec
  calls the first "user-facing", the second an internal "invalid argument" error and the
  third a usage error "distinct from action-domain errors": only the first is an instance
  of \<^verbatim>\<open>UserError\<close>, none is an instance of \<^verbatim>\<open>RuntimeError\<close>. \<open>TypeError\<close> is the
  native error of calling \<^verbatim>\<open>null\<close>.
\<close>

datatype iclass = UserError | ArgumentInvalidTypeError | OperationInvalidError | TypeError

text \<open>
  An object the class itself constructs with \<^verbatim>\<open>new\<close> is \<open>Made k c m\<close>: the \<open>k\<close>-th
  object constructed by this execution, of class \<open>c\<close>, with message (or offending type) \<open>m\<close>.
  Two constructions never give the same object, so \<^verbatim>\<open>===\<close> on values is equality.
\<close>

datatype jsval = User uval | Made nat iclass string

fun falsy :: "jsval \<Rightarrow> bool" where
  "falsy (User VUndefined) = True"
| "falsy (User VNull) = True"
| "falsy (User (VBool b)) = (\<not> b)"
| "falsy (User (VNum n)) = (n = 0)"
| "falsy (User VNaN) = True"
| "falsy (User (VStr s)) = (s = [])"
| "falsy (User (VError i u r m)) = False"
| "falsy (User (VObject i c)) = False"
| "falsy (User (VThenable i)) = False"
| "falsy (Made k c m) = False"

fun typeof :: "jsval \<Rightarrow> string" where
  "typeof (User VUndefined) = ''undefined''"
| "typeof (User VNull) = ''object''"
| "typeof (User (VBool b)) = ''boolean''"
| "typeof (User (VNum n)) = ''number''"
| "typeof (User VNaN) = ''number''"
| "typeof (User (VStr s)) = ''string''"
| "typeof (User (VError i u r m)) = ''object''"
| "typeof (User (VObject i c)) = ''object''"
| "typeof (User (VThenable i)) = ''object''"
| "typeof (Made k c m) = ''object''"

fun instanceofError :: "jsval \<Rightarrow> bool" where
  "instanceofError (User (VError i u r m)) = True"
| "instanceofError (Made k c m) = True"
| "instanceofError (User v) = False"

fun instanceofUserError :: "jsval \<Rightarrow> bool" where
  "instanceofUserError (User (VError i u r m)) = u"
| "instanceofUserError (Made k c m) = (c = UserError)"
| "instanceofUserError (User v) = False"

fun instanceofRuntimeError :: "jsval \<Rightarrow> bool" where
  "instanceofRuntimeError (User (VError i u r m)) = r"
| "instanceofRuntimeError (Made k c m) = False"
| "instanceofRuntimeError (User v) = False"

fun stringOf :: "jsval \<Rightarrow> string" where
  "stringOf (User (VStr s)) = s"
| "stringOf v = []"

text \<open>
  What the two log statements of the class need from the value they report:
  \<^verbatim>\<open>"..." + v\<close> converts \<open>v\<close> to a string, which throws for an object without a
  conversion, and \<^verbatim>\<open>v.stack\<close> reads a property, which throws for \<^verbatim>\<open>undefined\<close> and
  \<^verbatim>\<open>null\<close>. An \<^verbatim>\<open>Error\<close> converts with \<^verbatim>\<open>Error.prototype.toString\<close>.
\<close>

fun stringifies :: "jsval \<Rightarrow> bool" where
  "stringifies (User (VObject i c)) = c"
| "stringifies v = True"

fun nullish :: "jsval \<Rightarrow> bool" where
  "nullish (User VUndefined) = True"
| "nullish (User VNull) = True"
| "nullish v = False"

fun thenable :: "jsval \<Rightarrow> bool" where
  "thenable (User (VThenable i)) = True"
| "thenable v = False"

section \<open>States\<close>

text \<open>
  Modelled from the spec: the enumeration \<^verbatim>\<open>./States\<close> is not under src/. The spec
  describes bit flags \<open>unstarted\<close>, \<open>init\<close>, \<open>will\<close>, \<open>do\<close>, then the outcome markers
  \<open>did\<close>, \<open>canceled\<close>, \<open>failed\<close> and the marker \<open>finished\<close> that is OR'ed onto an outcome;
  the class compares them with \<^verbatim>\<open><\<close> and \<^verbatim>\<open>>\<close> in this order and tests them with
  \<^verbatim>\<open>&\<close>, so they are the successive powers of two.
\<close>

definition States_unstarted :: nat where "States_unstarted = 1"
definition States_init :: nat where "States_init = 2"
definition States_will :: nat where "States_will = 4"
definition States_do :: nat where "States_do = 8"
definition States_did :: nat where "States_did = 16"
definition States_canceled :: nat where "States_canceled = 32"
definition States_failed :: nat where "States_failed = 64"
definition States_finished :: nat where "States_finished = 128"

definition executingUnsettledStates :: nat where
  "executingUnsettledStates = States_unstarted OR States_init OR States_will OR States_do"

definition rejectedStates :: nat where
  "rejectedStates = States_canceled OR States_failed"

definition settledStates :: nat where
  "settledStates = States_did OR rejectedStates"

definition MSG_STATE_EXECUTION_REENTRY :: string where
  "MSG_STATE_EXECUTION_REENTRY = ''This method can not be called during execution.''"

definition MSG_STATE_EXECUTE :: string where
  "MSG_STATE_EXECUTE = ''This method can not be called after the will phase.''"

definition MSG_STATE_DONE :: string where
  "MSG_STATE_DONE = ''The done method can only be called while in the do state.''"

definition MSG_STATE_REJECT :: string where
  "MSG_STATE_REJECT = ''The reject method can only be called while in the init, will or do states.''"

section \<open>The execution object\<close>

text \<open>
  A promise is pending, fulfilled with a value, rejected with a reason, or, once it has been
  resolved with a thenable, follows that thenable.
\<close>

datatype pstatus = Pending | Fulfilled jsval | Rejected jsval | Following jsval

definition resolved_with :: "jsval \<Rightarrow> pstatus" where
  "resolved_with v = (if thenable v then Following v else Fulfilled v)"

text \<open>
  \<^verbatim>\<open>{promise, resolve, reject}\<close>: the promise is an object identity and its settlement;
  \<open>hasResolvers\<close> says that \<^verbatim>\<open>resolve\<close> and \<^verbatim>\<open>reject\<close> are functions and not \<^verbatim>\<open>null\<close>.
\<close>

record promiseControl =
  promise :: nat
  status :: pstatus
  hasResolvers :: bool

text \<open>
  What the promise chain built by \<^verbatim>\<open>__executeAsyncAction\<close> waits for: the promise
  returned by \<^verbatim>\<open>_onPhaseDo\<close>, the call of \<^verbatim>\<open>__executePhaseDoDefaultAsync\<close> chained to
  it, the promise returned by \<^verbatim>\<open>_doDefault\<close>, the \<^verbatim>\<open>catch\<close> handler
  (\<^verbatim>\<open>__rejectOrLog\<close>) with the reason it will receive, or the final handler
  (\<^verbatim>\<open>__callInside\<close> of \<^verbatim>\<open>__executePhaseFinally\<close>).
\<close>

datatype chain = NoChain | AwaitDo | DefaultReady | AwaitDefault | CatchReady jsval | FinallyReady

datatype logentry = IgnoredAfterDone jsval | IgnoredInFinally jsval

text \<open>
  The fields \<open>x_f\<close> are the private fields \<^verbatim>\<open>this.__f\<close>. The others are not fields of the
  class: \<open>chain\<close> is the pending promise chain, \<open>n_h\<close> counts the calls of the hook
  \<^verbatim>\<open>_h\<close>, \<open>warnings\<close> collects the calls of \<^verbatim>\<open>logger.warn\<close>, and \<open>n_objects\<close> counts the
  objects constructed so far (it names the next one).
\<close>

record execution =
  x_state :: nat
  x_isInside :: bool
  x_result :: jsval
  x_error :: jsval
  x_promiseControl :: "promiseControl option"
  chain :: chain
  n_onPhaseInit :: nat
  n_onPhaseWill :: nat
  n_onPhaseDo :: nat
  n_onPhaseFinally :: nat
  warnings :: "logentry list"
  n_objects :: nat

definition constructor :: execution where
  "constructor = \<lparr> x_state = States_unstarted, x_isInside = False,
     x_result = User VUndefined, x_error = User VNull, x_promiseControl = None,
     chain = NoChain, n_onPhaseInit = 0, n_onPhaseWill = 0, n_onPhaseDo = 0,
     n_onPhaseFinally = 0, warnings = [], n_objects = 0 \<rparr>"

definition isUnstarted :: "execution \<Rightarrow> bool" where
  "isUnstarted e = (x_state e = States_unstarted)"

definition isSettled :: "execution \<Rightarrow> bool" where
  "isSettled e = (x_state e AND settledStates \<noteq> 0)"

definition isRejected :: "execution \<Rightarrow> bool" where
  "isRejected e = (x_state e AND rejectedStates \<noteq> 0)"

definition isCanceled :: "execution \<Rightarrow> bool" where
  "isCanceled e = (x_state e AND States_canceled \<noteq> 0)"

definition isFailed :: "execution \<Rightarrow> bool" where
  "isFailed e = (x_state e AND States_failed \<noteq> 0)"

definition isDone :: "execution \<Rightarrow> bool" where
  "isDone e = (x_state e AND States_did \<noteq> 0)"

definition isFinished :: "execution \<Rightarrow> bool" where
  "isFinished e = (x_state e AND States_finished \<noteq> 0)"

definition isExecuting :: "execution \<Rightarrow> bool" where
  "isExecuting e = (\<not> (isUnstarted e \<or> isFinished e))"

section \<open>Hooks, actions and computations\<close>

text \<open>
  The hooks \<^verbatim>\<open>_onPhaseInit\<close>, \<^verbatim>\<open>_onPhaseWill\<close>, \<^verbatim>\<open>_onPhaseDo\<close>, \<^verbatim>\<open>_doDefault\<close> and
  \<^verbatim>\<open>_onPhaseFinally\<close> are overridden by subclasses. A hook is a sequence of statements:
  a call of a public method of the execution whose exception leaves the hook, the same call
  inside \<^verbatim>\<open>try {} catch {}\<close>, or a \<^verbatim>\<open>throw\<close>. A hook that tests the state before it
  calls changes the fields as the same call inside \<^verbatim>\<open>try {} catch {}\<close> does. The same
  calls are what a caller outside can make; work that a hook starts and that calls
  the execution later is such a caller.
\<close>

datatype call = Done uval | Reject uval | Execute | ExecuteWill | GetPromise

datatype stmt = Invoke call | TryInvoke call | Throw uval

text \<open>
  What the execution reads from its action and its surroundings: \<^verbatim>\<open>isSync\<close>, the
  list returned by \<^verbatim>\<open>validate()\<close> (\<open>None\<close> is \<^verbatim>\<open>null\<close>), the hooks, whether \<^verbatim>\<open>_onPhaseDo\<close> and
  \<^verbatim>\<open>_doDefault\<close> return a promise, and whether the logger is at level \<^verbatim>\<open>warn\<close>.
\<close>

record env =
  isSync :: bool
  validate :: "uval list option"
  u_onPhaseInit :: "stmt list"
  u_onPhaseWill :: "stmt list"
  u_onPhaseDo :: "stmt list"
  doReturnsPromise :: bool
  u_doDefault :: "stmt list"
  defaultReturnsPromise :: bool
  u_onPhaseFinally :: "stmt list"
  warnEnabled :: bool

datatype retval = RVoid | RThis | RPromise nat | RNull | RDefaultPromise | RChained

datatype outcome = Return retval | Raise jsval

text \<open>
  A method is a function of the execution that returns or throws and gives the execution
  back; \<open>None\<close> is reserved for a hook that calls deeper than the depth given to \<open>api\<close>.
\<close>

type_synonym comp = "execution \<Rightarrow> (outcome \<times> execution) option"

definition andThen :: "comp \<Rightarrow> comp \<Rightarrow> comp" where
  "andThen m k e =
     (case m e of None \<Rightarrow> None
      | Some (Raise x, e1) \<Rightarrow> Some (Raise x, e1)
      | Some (Return r, e1) \<Rightarrow> k e1)"

definition tryCatch :: "comp \<Rightarrow> (jsval \<Rightarrow> comp) \<Rightarrow> comp" where
  "tryCatch m h e =
     (case m e of None \<Rightarrow> None
      | Some (Raise x, e1) \<Rightarrow> h x e1
      | Some (Return r, e1) \<Rightarrow> Some (Return r, e1))"

definition returns :: "retval \<Rightarrow> comp" where
  "returns r e = Some (Return r, e)"

definition throw_new :: "iclass \<Rightarrow> string \<Rightarrow> comp" where
  "throw_new c m e =
     Some (Raise (Made (n_objects e) c m), e\<lparr>n_objects := Suc (n_objects e)\<rparr>)"

fun run_hook :: "(call \<Rightarrow> comp) \<Rightarrow> stmt list \<Rightarrow> comp" where
  "run_hook callf [] e = Some (Return RVoid, e)"
| "run_hook callf (Invoke c # ss) e =
     (case callf c e of None \<Rightarrow> None
      | Some (Raise x, e1) \<Rightarrow> Some (Raise x, e1)
      | Some (Return r, e1) \<Rightarrow> run_hook callf ss e1)"
| "run_hook callf (TryInvoke c # ss) e =
     (case callf c e of None \<Rightarrow> None
      | Some (out, e1) \<Rightarrow> run_hook callf ss e1)"
| "run_hook callf (Throw v # ss) e = Some (Raise (User v), e)"

section \<open>The methods of the class\<close>

definition uu_assertStates :: "nat \<Rightarrow> string \<Rightarrow> comp" where
  "uu_assertStates states message e =
     (if x_state e AND states = 0 then throw_new OperationInvalidError message e
      else Some (Return RVoid, e))"

text \<open>
  \<^verbatim>\<open>Promise.resolve(result)\<close> and \<^verbatim>\<open>resolve(result)\<close> resolve the promise with the result:
  they fulfil it, unless the result is a thenable, which the promise then follows.
  (\<^verbatim>\<open>Promise.resolve\<close> of a native promise returns that promise itself; it is taken here as
  a new promise following it.)
\<close>

definition uu_createPromiseControl :: "execution \<Rightarrow> promiseControl \<times> execution" where
  "uu_createPromiseControl e =
     (let e1 = e\<lparr>n_objects := Suc (n_objects e)\<rparr> in
      if isFinished e then
        (\<lparr>promise = n_objects e,
          status = (if isDone e then resolved_with (x_result e) else Rejected (x_error e)),
          hasResolvers = False\<rparr>, e1)
      else
        (\<lparr>promise = n_objects e, status = Pending, hasResolvers = True\<rparr>, e1))"

definition uu_getPromiseControl :: "execution \<Rightarrow> promiseControl \<times> execution" where
  "uu_getPromiseControl e =
     (case x_promiseControl e of
        Some pc \<Rightarrow> (pc, e)
      | None \<Rightarrow>
          (let (pc, e1) = uu_createPromiseControl e
           in (pc, e1\<lparr>x_promiseControl := Some pc\<rparr>)))"

definition get_promise :: comp where
  "get_promise e =
     (let (pc, e1) = uu_getPromiseControl e in Some (Return (RPromise (promise pc)), e1))"

definition done_method :: "jsval \<Rightarrow> comp" where
  "done_method result =
     andThen (uu_assertStates States_do MSG_STATE_DONE)
       (\<lambda>e. Some (Return RThis, e\<lparr>x_result := result, x_state := States_did\<rparr>))"

definition uu_reject :: "jsval \<Rightarrow> execution \<Rightarrow> execution" where
  "uu_reject reason0 e =
     (let reason = (if falsy reason0 then User (VStr ''Canceled'') else reason0) in
      if typeof reason = ''string'' then
        e\<lparr>x_state := States_canceled,
          x_error := Made (n_objects e) UserError (stringOf reason),
          x_result := User VUndefined,
          n_objects := Suc (n_objects e)\<rparr>
      else if instanceofError reason then
        e\<lparr>x_state := (if \<not> instanceofUserError reason \<or> instanceofRuntimeError reason
                       then States_failed else States_canceled),
          x_error := reason,
          x_result := User VUndefined\<rparr>
      else
        e\<lparr>x_state := States_failed,
          x_error := Made (n_objects e) ArgumentInvalidTypeError (typeof reason),
          x_result := User VUndefined,
          n_objects := Suc (n_objects e)\<rparr>)"

text \<open>
  \<^verbatim>\<open>__rejectOrLog\<close> builds its warning as \<^verbatim>\<open>"..." + reason\<close>: at level \<^verbatim>\<open>warn\<close> a reason
  without a string conversion makes it throw a \<^verbatim>\<open>TypeError\<close> instead of logging.
\<close>

definition uu_rejectOrLog :: "env \<Rightarrow> jsval \<Rightarrow> comp" where
  "uu_rejectOrLog env reason e =
     (if \<not> isSettled e then Some (Return RVoid, uu_reject reason e)
      else if falsy reason \<or> x_error e \<noteq> reason then
        (if warnEnabled env then
           (if stringifies reason
            then Some (Return RVoid, e\<lparr>warnings := warnings e @ [IgnoredAfterDone reason]\<rparr>)
            else throw_new TypeError ''Cannot convert object to primitive value'' e)
         else Some (Return RVoid, e))
      else Some (Return RVoid, e))"

definition uu_executePhaseInit :: "(stmt list \<Rightarrow> comp) \<Rightarrow> env \<Rightarrow> comp" where
  "uu_executePhaseInit rh env e =
     (if x_state e < States_init then
        rh (u_onPhaseInit env)
          (e\<lparr>x_state := States_init, n_onPhaseInit := Suc (n_onPhaseInit e)\<rparr>)
      else Some (Return RVoid, e))"

text \<open>
  \<^verbatim>\<open>_validate()\<close> is \<^verbatim>\<open>this.action.validate()\<close>; \<^verbatim>\<open>_lockAction()\<close> freezes the action, which
  is no field of the execution, and is left out.
\<close>

definition uu_executePhaseWill :: "(stmt list \<Rightarrow> comp) \<Rightarrow> env \<Rightarrow> comp" where
  "uu_executePhaseWill rh env e =
     (if x_state e < States_will then
        (let e1 = e\<lparr>x_state := States_will\<rparr> in
         case validate env of
           None \<Rightarrow> rh (u_onPhaseWill env) (e1\<lparr>n_onPhaseWill := Suc (n_onPhaseWill e1)\<rparr>)
         | Some [] \<Rightarrow> rh (u_onPhaseWill env) (e1\<lparr>n_onPhaseWill := Suc (n_onPhaseWill e1)\<rparr>)
         | Some (err # errs) \<Rightarrow> Some (Return RVoid, uu_reject (User err) e1))
      else Some (Return RVoid, e))"

definition uu_executePhaseDoDefaultAsync :: "(stmt list \<Rightarrow> comp) \<Rightarrow> env \<Rightarrow> comp" where
  "uu_executePhaseDoDefaultAsync rh env e =
     (if \<not> isSettled e then
        andThen (rh (u_doDefault env))
          (\<lambda>e1. if \<not> isSettled e1 \<and> defaultReturnsPromise env
                then Some (Return RDefaultPromise, e1)
                else Some (Return RNull, e1)) e
      else Some (Return RNull, e))"

definition uu_executePhaseDo :: "(stmt list \<Rightarrow> comp) \<Rightarrow> env \<Rightarrow> comp" where
  "uu_executePhaseDo rh env e =
     (if x_state e < States_do then
        andThen (rh (u_onPhaseDo env))
          (\<lambda>e1. if isSync env then
                  (if \<not> isSettled e1
                   then andThen (rh (u_doDefault env)) (returns RNull) e1
                   else Some (Return RNull, e1))
                else if \<not> doReturnsPromise env \<or> isSettled e1
                  then uu_executePhaseDoDefaultAsync rh env e1
                else Some (Return RChained, e1))
          (e\<lparr>x_state := States_do, n_onPhaseDo := Suc (n_onPhaseDo e)\<rparr>)
      else Some (Return RNull, e))"

text \<open>
  The end of \<^verbatim>\<open>__executePhaseFinally\<close>: \<^verbatim>\<open>promiseControl.resolve(this.result)\<close> or
  \<^verbatim>\<open>promiseControl.reject(this.error)\<close>; calling \<^verbatim>\<open>null\<close> throws, settling a settled
  promise does nothing.
\<close>

definition settle_promise :: comp where
  "settle_promise e =
     (case x_promiseControl e of
        None \<Rightarrow> Some (Return RVoid, e)
      | Some pc \<Rightarrow>
          if \<not> hasResolvers pc then throw_new TypeError ''null is not a function'' e
          else if status pc \<noteq> Pending then Some (Return RVoid, e)
          else Some (Return RVoid,
                 e\<lparr>x_promiseControl := Some (pc\<lparr>status :=
                      (if isDone e then resolved_with (x_result e) else Rejected (x_error e))\<rparr>)\<rparr>))"

text \<open>
  The catch block of \<^verbatim>\<open>__executePhaseFinally\<close>: at level \<^verbatim>\<open>warn\<close> it builds
  \<^verbatim>\<open>"..." + ex + "..." + ex.stack\<close>, which throws a \<^verbatim>\<open>TypeError\<close> when \<open>ex\<close> has no string
  conversion or is \<^verbatim>\<open>undefined\<close> or \<^verbatim>\<open>null\<close>; the error leaves \<^verbatim>\<open>__executePhaseFinally\<close>.
\<close>

definition log_finally_error :: "env \<Rightarrow> jsval \<Rightarrow> comp" where
  "log_finally_error env ex e =
     (if warnEnabled env then
        (if stringifies ex \<and> \<not> nullish ex
         then Some (Return RVoid, e\<lparr>warnings := warnings e @ [IgnoredInFinally ex]\<rparr>)
         else throw_new TypeError ''Cannot read the stack of the thrown value'' e)
      else Some (Return RVoid, e))"

definition uu_executePhaseFinally :: "(stmt list \<Rightarrow> comp) \<Rightarrow> env \<Rightarrow> comp" where
  "uu_executePhaseFinally rh env e =
     (if x_state e < States_finished then
        andThen (if \<not> isSettled e then done_method (User VUndefined) else returns RVoid)
         (andThen
           (tryCatch
              (\<lambda>e1. rh (u_onPhaseFinally env) (e1\<lparr>n_onPhaseFinally := Suc (n_onPhaseFinally e1)\<rparr>))
              (log_finally_error env))
           (andThen
              (\<lambda>e3. Some (Return RVoid, e3\<lparr>x_state := x_state e3 OR States_finished\<rparr>))
              settle_promise)) e
      else Some (Return RVoid, e))"

definition uu_callInside :: "comp \<Rightarrow> comp" where
  "uu_callInside f e =
     (if x_isInside e then throw_new OperationInvalidError MSG_STATE_EXECUTION_REENTRY e
      else
        (case f (e\<lparr>x_isInside := True\<rparr>) of
           None \<Rightarrow> None
         | Some (Raise x, e1) \<Rightarrow> Some (Raise x, e1)
         | Some (Return r, e1) \<Rightarrow> Some (Return r, e1\<lparr>x_isInside := False\<rparr>)))"

definition uu_executeSyncAction :: "(stmt list \<Rightarrow> comp) \<Rightarrow> env \<Rightarrow> comp" where
  "uu_executeSyncAction rh env =
     andThen
       (tryCatch
          (andThen (uu_executePhaseInit rh env)
            (andThen (uu_executePhaseWill rh env) (uu_executePhaseDo rh env)))
          (uu_rejectOrLog env))
       (uu_executePhaseFinally rh env)"

text \<open>
  \<^verbatim>\<open>__executeAsyncAction\<close> ends by building the chain
  \<^verbatim>\<open>Promise.resolve(p).catch(__rejectOrLog).then(boundFinally, boundFinally)\<close>, where \<open>p\<close>
  is what \<^verbatim>\<open>__executePhaseDo\<close> returned; after an exception the chain is
  \<^verbatim>\<open>Promise.resolve().then(boundFinally, boundFinally)\<close>.
\<close>

definition chain_of :: "retval \<Rightarrow> chain" where
  "chain_of r = (if r = RChained then AwaitDo
                 else if r = RDefaultPromise then AwaitDefault
                 else FinallyReady)"

definition uu_executeAsyncAction :: "(stmt list \<Rightarrow> comp) \<Rightarrow> env \<Rightarrow> comp" where
  "uu_executeAsyncAction rh env e =
     (case andThen (uu_executePhaseInit rh env)
             (andThen (uu_executePhaseWill rh env) (uu_executePhaseDo rh env)) e of
        None \<Rightarrow> None
      | Some (Raise ex, e1) \<Rightarrow>
          (case uu_rejectOrLog env ex e1 of
             None \<Rightarrow> None
           | Some (Raise x, e2) \<Rightarrow> Some (Raise x, e2)
           | Some (Return r, e2) \<Rightarrow> Some (Return RVoid, e2\<lparr>chain := FinallyReady\<rparr>))
      | Some (Return r, e1) \<Rightarrow> Some (Return RVoid, e1\<lparr>chain := chain_of r\<rparr>))"

definition execute :: "(stmt list \<Rightarrow> comp) \<Rightarrow> env \<Rightarrow> comp" where
  "execute rh env e =
     (if x_state e > States_will then throw_new OperationInvalidError MSG_STATE_EXECUTE e
      else andThen
             (uu_callInside
                (if isSync env then uu_executeSyncAction rh env
                 else uu_executeAsyncAction rh env))
             (returns RThis) e)"

definition executeWill :: "(stmt list \<Rightarrow> comp) \<Rightarrow> env \<Rightarrow> comp" where
  "executeWill rh env e =
     (if x_state e > States_will then throw_new OperationInvalidError MSG_STATE_EXECUTE e
      else andThen
             (uu_callInside
                (tryCatch
                   (andThen (uu_executePhaseInit rh env) (uu_executePhaseWill rh env))
                   (uu_rejectOrLog env)))
             (returns RThis) e)"

definition reject :: "(stmt list \<Rightarrow> comp) \<Rightarrow> env \<Rightarrow> jsval \<Rightarrow> comp" where
  "reject rh env reason e =
     andThen (uu_assertStates executingUnsettledStates MSG_STATE_REJECT)
       (\<lambda>e1. let wasExecuting = isExecuting e1; e2 = uu_reject reason e1 in
             if \<not> wasExecuting
             then andThen (uu_executePhaseFinally rh env) (returns RThis) e2
             else Some (Return RThis, e2)) e"

section \<open>Calls, hooks that call, and events\<close>

definition perform :: "(stmt list \<Rightarrow> comp) \<Rightarrow> env \<Rightarrow> call \<Rightarrow> comp" where
  "perform rh env c =
     (case c of
        Done v \<Rightarrow> done_method (User v)
      | Reject v \<Rightarrow> reject rh env (User v)
      | Execute \<Rightarrow> execute rh env
      | ExecuteWill \<Rightarrow> executeWill rh env
      | GetPromise \<Rightarrow> get_promise)"

text \<open>
  A hook may call the execution it belongs to, whose methods may run hooks again. \<open>api n\<close>
  is the class with calls nested at most \<open>n\<close> deep; a deeper call gives \<open>None\<close>.
  \<open>hooks n\<close> runs a hook whose calls may nest \<open>n\<close> levels further, so a call from outside
  with these hooks is \<open>api (n + 2)\<close>. The theorems below hold for every \<open>n\<close>, and say that
  the call returns: a call made from inside a hook never runs a hook, so depth two is
  always enough.
\<close>

primrec api :: "nat \<Rightarrow> env \<Rightarrow> call \<Rightarrow> comp" where
  "api 0 env = (\<lambda>c e. None)"
| "api (Suc n) env = perform (run_hook (api n env)) env"

definition hooks :: "nat \<Rightarrow> env \<Rightarrow> stmt list \<Rightarrow> comp" where
  "hooks n env = run_hook (api (Suc n) env)"

text \<open>
  What happens to an execution from outside: a caller calls a method (an exception goes to
  the caller, the execution keeps what was done), the promise the chain waits for is
  fulfilled or rejected, or the next handler of the chain runs. An event the chain is not
  waiting for changes nothing. An exception of the \<^verbatim>\<open>catch\<close> handler rejects the promise the
  final handler is chained to, and that handler is registered for both outcomes; an
  exception of the final handler is lost, with what \<^verbatim>\<open>__callInside\<close> left behind.
\<close>

datatype event = Calls call | Fulfil | RejectWith uval | Tick

definition step :: "nat \<Rightarrow> env \<Rightarrow> event \<Rightarrow> execution \<Rightarrow> execution option" where
  "step n env ev e =
     (case ev of
        Calls c \<Rightarrow> map_option snd (perform (hooks n env) env c e)
      | Fulfil \<Rightarrow>
          Some (if chain e = AwaitDo then e\<lparr>chain := DefaultReady\<rparr>
                else if chain e = AwaitDefault then e\<lparr>chain := FinallyReady\<rparr>
                else e)
      | RejectWith r \<Rightarrow>
          Some (if chain e = AwaitDo \<or> chain e = AwaitDefault
                then e\<lparr>chain := CatchReady (User r)\<rparr> else e)
      | Tick \<Rightarrow>
          (case chain e of
             DefaultReady \<Rightarrow>
               (case uu_executePhaseDoDefaultAsync (hooks n env) env e of
                  None \<Rightarrow> None
                | Some (Raise ex, e1) \<Rightarrow> Some (e1\<lparr>chain := CatchReady ex\<rparr>)
                | Some (Return r, e1) \<Rightarrow> Some (e1\<lparr>chain := chain_of r\<rparr>))
           | CatchReady ex \<Rightarrow>
               (case uu_rejectOrLog env ex e of
                  None \<Rightarrow> None
                | Some (out, e1) \<Rightarrow> Some (e1\<lparr>chain := FinallyReady\<rparr>))
           | FinallyReady \<Rightarrow>
               map_option snd
                 (uu_callInside (uu_executePhaseFinally (hooks n env) env) (e\<lparr>chain := NoChain\<rparr>))
           | _ \<Rightarrow> Some e))"

inductive reach :: "env \<Rightarrow> execution \<Rightarrow> bool" for env :: env where
  reach_new: "reach env constructor"
| reach_step: "reach env e \<Longrightarrow> step n env ev e = Some e1 \<Longrightarrow> reach env e1"

section \<open>Predicates used by the theorems\<close>

text \<open>
  The values \<^verbatim>\<open>__state\<close> takes: a phase, an outcome, or an outcome with \<open>finished\<close>.
  Between two events the state is never \<open>init\<close> (\<open>idle_states\<close>); while
  \<^verbatim>\<open>execute\<close> or \<^verbatim>\<open>executeWill\<close> drive the phases it is not finished (\<open>driving_states\<close>);
  the finally phase is entered in \<open>do\<close> or in an outcome (\<open>settling_states\<close>) and left
  in an outcome with \<open>finished\<close> (\<open>finished_states\<close>) or, by an exception of its catch
  block, in the outcome alone (\<open>outcome_states\<close>). \<open>rejecting_states\<close> are the states of an
  execution whose action is invalid.
\<close>

definition execution_states :: "nat set" where
  "execution_states =
     {States_unstarted, States_init, States_will, States_do,
      States_did, States_canceled, States_failed,
      States_did OR States_finished, States_canceled OR States_finished,
      States_failed OR States_finished}"

definition driving_states :: "nat set" where
  "driving_states =
     {States_unstarted, States_init, States_will, States_do,
      States_did, States_canceled, States_failed}"

definition settling_states :: "nat set" where
  "settling_states = {States_do, States_did, States_canceled, States_failed}"

definition outcome_states :: "nat set" where
  "outcome_states = {States_did, States_canceled, States_failed}"

definition finished_states :: "nat set" where
  "finished_states =
     {States_did OR States_finished, States_canceled OR States_finished,
      States_failed OR States_finished}"

definition idle_states :: "nat set" where
  "idle_states =
     {States_unstarted, States_will, States_do, States_did, States_canceled, States_failed}
     \<union> finished_states"

definition rejecting_states :: "nat set" where
  "rejecting_states =
     {States_unstarted, States_canceled, States_failed,
      States_canceled OR States_finished, States_failed OR States_finished}"

text \<open>
  While a hook runs, the state is a phase from \<open>init\<close> on or an outcome that is not yet
  finished, and either \<^verbatim>\<open>__isInside\<close> is set or the state is past \<open>will\<close>.
\<close>

definition hook_states :: "nat set" where
  "hook_states =
     {States_init, States_will, States_do, States_did, States_canceled, States_failed}"

definition in_hook :: "execution \<Rightarrow> bool" where
  "in_hook e \<longleftrightarrow> x_state e \<in> hook_states \<and> (x_isInside e \<or> States_will < x_state e)"

text \<open>
  The promise control is left alone, or created pending where there was none
  (\<open>promise_kept\<close>); more loosely, a promise that was there is still the same object
  (\<open>same_promise\<close>).
\<close>

definition promise_kept :: "execution \<Rightarrow> execution \<Rightarrow> bool" where
  "promise_kept e e1 \<longleftrightarrow>
     x_promiseControl e1 = x_promiseControl e \<or>
     (x_promiseControl e = None \<and>
      (\<exists>k. x_promiseControl e1 = Some \<lparr>promise = k, status = Pending, hasResolvers = True\<rparr>))"

definition same_promise :: "execution \<Rightarrow> execution \<Rightarrow> bool" where
  "same_promise e e1 \<longleftrightarrow>
     (\<forall>pc. x_promiseControl e = Some pc \<longrightarrow>
        (\<exists>pc1. x_promiseControl e1 = Some pc1 \<and> promise pc1 = promise pc))"

text \<open>
  What the calls made by one hook can do to the execution: nothing to the flags, the chain,
  the counters and the log; and the state is left alone with result and error, or goes from
  \<open>do\<close> to \<open>did\<close>, or from a phase to \<open>canceled\<close> or \<open>failed\<close>. A hook runner is any way
  of running hooks that has this effect and returns.
\<close>

definition hook_effect :: "execution \<Rightarrow> execution \<Rightarrow> bool" where
  "hook_effect e e1 \<longleftrightarrow>
     in_hook e1 \<and> x_isInside e1 = x_isInside e \<and> chain e1 = chain e \<and>
     n_onPhaseInit e1 = n_onPhaseInit e \<and> n_onPhaseWill e1 = n_onPhaseWill e \<and>
     n_onPhaseDo e1 = n_onPhaseDo e \<and> n_onPhaseFinally e1 = n_onPhaseFinally e \<and>
     warnings e1 = warnings e \<and>
     promise_kept e e1 \<and>
     (x_state e1 = x_state e \<and> x_result e1 = x_result e \<and> x_error e1 = x_error e
      \<or> x_state e = States_do \<and> x_state e1 = States_did
      \<or> x_state e < States_did \<and> (x_state e1 = States_canceled \<or> x_state e1 = States_failed))"

definition hook_runner :: "(stmt list \<Rightarrow> comp) \<Rightarrow> bool" where
  "hook_runner rh \<longleftrightarrow>
     (\<forall>ss e. in_hook e \<longrightarrow> (\<exists>out e1. rh ss e = Some (out, e1) \<and> hook_effect e e1))"

text \<open>
  The invariants of a run. A hook has run at most once, not before the state reached its
  phase (the finally hook: an outcome), and exactly once when the state is that phase or a
  later one short of a rejection (\<open>hooks_counted\<close>). The promise, if there is one, is
  pending with its resolvers until the execution is finished, and then resolved with the
  recorded result or rejected with the recorded error (\<open>promise_consistent\<close>).
  \<open>wellformed\<close> holds between two events: the chain waits only for an unfinished execution
  whose finally hook has not run, and \<^verbatim>\<open>__isInside\<close> is set only where an exception has
  left \<^verbatim>\<open>__callInside\<close>, in an outcome that will never be finished. \<open>driving\<close> holds
  while \<^verbatim>\<open>execute\<close> or \<^verbatim>\<open>executeWill\<close> run the phases; \<open>advance\<close> relates two moments
  of a run.
\<close>

definition hooks_counted :: "execution \<Rightarrow> bool" where
  "hooks_counted e \<longleftrightarrow>
     (x_state e < States_init \<longrightarrow> n_onPhaseInit e = 0) \<and>
     (x_state e < States_will \<longrightarrow> n_onPhaseWill e = 0) \<and>
     (x_state e < States_do \<longrightarrow> n_onPhaseDo e = 0) \<and>
     (x_state e < States_did \<longrightarrow> n_onPhaseFinally e = 0) \<and>
     n_onPhaseInit e \<le> 1 \<and> n_onPhaseWill e \<le> 1 \<and> n_onPhaseDo e \<le> 1 \<and>
     n_onPhaseFinally e \<le> 1 \<and>
     (x_state e \<in> {States_init, States_will, States_do, States_did,
                     States_did OR States_finished} \<longrightarrow> n_onPhaseInit e = 1) \<and>
     (x_state e \<in> {States_will, States_do, States_did,
                     States_did OR States_finished} \<longrightarrow> n_onPhaseWill e = 1) \<and>
     (x_state e \<in> {States_do, States_did,
                     States_did OR States_finished} \<longrightarrow> n_onPhaseDo e = 1) \<and>
     (x_state e \<in> finished_states \<longrightarrow> n_onPhaseFinally e = 1)"

definition promise_consistent :: "execution \<Rightarrow> bool" where
  "promise_consistent e \<longleftrightarrow>
     (\<forall>pc. x_promiseControl e = Some pc \<longrightarrow>
        (if isFinished e
         then status pc = (if isDone e then resolved_with (x_result e) else Rejected (x_error e))
         else status pc = Pending \<and> hasResolvers pc))"

definition advance :: "execution \<Rightarrow> execution \<Rightarrow> bool" where
  "advance e e1 \<longleftrightarrow>
     x_state e \<le> x_state e1 \<and> same_promise e e1 \<and> chain e1 = chain e \<and>
     x_isInside e1 = x_isInside e"

definition driving :: "execution \<Rightarrow> bool" where
  "driving e \<longleftrightarrow>
     x_isInside e \<and> x_state e \<in> driving_states \<and> hooks_counted e \<and> promise_consistent e \<and>
     n_onPhaseFinally e = 0"

definition wellformed :: "execution \<Rightarrow> bool" where
  "wellformed e \<longleftrightarrow>
     x_state e \<in> idle_states \<and>
     (chain e \<noteq> NoChain \<longrightarrow>
        x_state e \<in> settling_states \<and> \<not> x_isInside e \<and> n_onPhaseFinally e = 0) \<and>
     (x_isInside e \<longrightarrow> x_state e \<in> outcome_states) \<and>
     hooks_counted e \<and> promise_consistent e"

text \<open>An action is invalid when \<^verbatim>\<open>validate()\<close> returns a non-empty list.\<close>

definition invalid :: "env \<Rightarrow> bool" where
  "invalid env \<longleftrightarrow> (\<exists>v vs. validate env = Some (v # vs))"

text \<open>
  The class as it is, with the hooks it defines itself: \<^verbatim>\<open>_onPhaseInit\<close>,
  \<^verbatim>\<open>_onPhaseWill\<close> and \<^verbatim>\<open>_onPhaseFinally\<close> do nothing, \<^verbatim>\<open>_onPhaseDo\<close> and \<^verbatim>\<open>_doDefault\<close>
  return \<^verbatim>\<open>null\<close>; the action is synchronous and valid.
\<close>

definition base_env :: env where
  "base_env = \<lparr> isSync = True, validate = None, u_onPhaseInit = [], u_onPhaseWill = [],
     u_onPhaseDo = [], doReturnsPromise = False, u_doDefault = [],
     defaultReturnsPromise = False, u_onPhaseFinally = [], warnEnabled = True \<rparr>"

text \<open>
  Executions and actions at which the theorems are instantiated: the execution after
  \<^verbatim>\<open>execute()\<close> with the hooks of the class (state \<open>did\<close> with \<open>finished\<close>, 144), the same
  with a promise requested first, an execution in its do phase, a finally hook that calls
  \<^verbatim>\<open>done\<close> and throws, and an action whose validation fails.
\<close>

definition did_example :: execution where
  "did_example = \<lparr> x_state = 144, x_isInside = False,
     x_result = User VUndefined, x_error = User VNull, x_promiseControl = None,
     chain = NoChain, n_onPhaseInit = 1, n_onPhaseWill = 1, n_onPhaseDo = 1,
     n_onPhaseFinally = 1, warnings = [], n_objects = 0 \<rparr>"

definition throwing_env :: env where
  "throwing_env = base_env\<lparr>u_onPhaseFinally := [Invoke (Done VNull), Throw (VStr ''boom'')]\<rparr>"

definition doing_example :: execution where
  "doing_example = constructor\<lparr>x_state := States_do, x_isInside := True,
     n_onPhaseInit := 1, n_onPhaseWill := 1, n_onPhaseDo := 1\<rparr>"


definition invalid_env :: env where
  "invalid_env = base_env\<lparr>validate := Some [VError 7 False False ''bad'']\<rparr>"

text \<open>
  A finally hook that throws \<^verbatim>\<open>undefined\<close>, with the logger at level \<^verbatim>\<open>warn\<close>; the
  execution such a hook leaves behind \<^verbatim>\<open>execute()\<close>; an execution rejected before it was
  started; and an execution of the invalid action after \<^verbatim>\<open>promise\<close> and \<^verbatim>\<open>executeWill()\<close>.
\<close>

definition throw_undefined_env :: env where
  "throw_undefined_env = base_env\<lparr>u_onPhaseFinally := [Throw VUndefined]\<rparr>"

definition unfinished_example :: execution where
  "unfinished_example = \<lparr> x_state = 16, x_isInside = True,
     x_result = User VUndefined, x_error = User VNull, x_promiseControl = None,
     chain = NoChain, n_onPhaseInit = 1, n_onPhaseWill = 1, n_onPhaseDo = 1,
     n_onPhaseFinally = 1, warnings = [], n_objects = 1 \<rparr>"

definition rejected_example :: execution where
  "rejected_example = \<lparr> x_state = 160, x_isInside = False,
     x_result = User VUndefined, x_error = Made 0 UserError ''x'', x_promiseControl = None,
     chain = NoChain, n_onPhaseInit = 0, n_onPhaseWill = 0, n_onPhaseDo = 0,
     n_onPhaseFinally = 1, warnings = [], n_objects = 1 \<rparr>"


section \<open>Facts about the states\<close>

lemmas States_defs =
  States_unstarted_def States_init_def States_will_def States_do_def
  States_did_def States_canceled_def States_failed_def States_finished_def

lemmas bit_defs = isSettled_def isRejected_def isCanceled_def isFailed_def isDone_def
  isFinished_def isUnstarted_def isExecuting_def settledStates_def rejectedStates_def
  executingUnsettledStates_def

lemma api_hooks: "api (Suc (Suc n)) env = perform (hooks n env) env"
  by (simp add: hooks_def)

lemma execution_states_cases:
  assumes "x_state e \<in> execution_states"
  obtains "x_state e = 1" | "x_state e = 2" | "x_state e = 4" | "x_state e = 8"
    | "x_state e = 16" | "x_state e = 32" | "x_state e = 64"
    | "x_state e = 144" | "x_state e = 160" | "x_state e = 192"
  using assms by (auto simp: execution_states_def States_defs)

section \<open>Completion outside the do phase\<close>

text \<open>
  C8. For every execution whose state is not \<open>do\<close>, \<^verbatim>\<open>done(result)\<close> throws an
  \<^verbatim>\<open>OperationInvalidError\<close> with the message of \<^verbatim>\<open>MSG_STATE_DONE\<close> and leaves every field
  of the execution as it was: state, result, error, the reentrancy flag and the promise
  control are unchanged (only one more error object has been constructed).
\<close>

theorem done_outside_do:
  assumes "x_state e \<in> execution_states" and "x_state e \<noteq> States_do"
  shows "\<exists>e1. done_method result e =
            Some (Raise (Made (n_objects e) OperationInvalidError MSG_STATE_DONE), e1)
          \<and> e1 = e\<lparr>n_objects := Suc (n_objects e)\<rparr>
          \<and> x_state e1 = x_state e \<and> x_result e1 = x_result e \<and> x_error e1 = x_error e
          \<and> x_isInside e1 = x_isInside e \<and> x_promiseControl e1 = x_promiseControl e"
  using assms
  by (cases rule: execution_states_cases)
     (simp_all add: done_method_def andThen_def uu_assertStates_def throw_new_def States_defs)

theorem done_outside_do_witness:
  "x_state constructor \<in> execution_states \<and> x_state constructor \<noteq> States_do \<and>
   (\<exists>e1. done_method (User (VNum 7)) constructor =
            Some (Raise (Made 0 OperationInvalidError MSG_STATE_DONE), e1)
        \<and> x_state e1 = States_unstarted \<and> x_result e1 = User VUndefined
        \<and> x_error e1 = User VNull)"
proof -
  have h1: "x_state constructor \<in> execution_states"
    by (simp add: constructor_def execution_states_def)
  have h2: "x_state constructor \<noteq> States_do"
    by (simp add: constructor_def States_defs)
  show ?thesis
    using done_outside_do [OF h1 h2, of "User (VNum 7)"] h1 h2
    by (auto simp: constructor_def)
qed

section \<open>Calls made from inside a hook\<close>

text \<open>
  A call made while a hook runs never runs a hook itself: \<^verbatim>\<open>execute\<close> and
  \<^verbatim>\<open>executeWill\<close> throw, \<^verbatim>\<open>reject\<close> does not find the execution unstarted. So every call
  returns at depth one, and a whole hook has the effect described by \<open>hook_effect\<close>.
\<close>

lemma hook_effect_refl: "in_hook e \<Longrightarrow> hook_effect e e"
  by (simp add: hook_effect_def promise_kept_def)

lemma promise_kept_trans: "promise_kept e e1 \<Longrightarrow> promise_kept e1 e2 \<Longrightarrow> promise_kept e e2"
  by (auto simp: promise_kept_def)

lemma hook_effect_trans:
  assumes a: "hook_effect e e1" and b: "hook_effect e1 e2"
  shows "hook_effect e e2"
proof -
  have p: "promise_kept e e2"
    using a b promise_kept_trans [of e e1 e2] by (simp add: hook_effect_def)
  have s: "x_state e2 = x_state e \<and> x_result e2 = x_result e \<and> x_error e2 = x_error e
      \<or> x_state e = States_do \<and> x_state e2 = States_did
      \<or> x_state e < States_did \<and> (x_state e2 = States_canceled \<or> x_state e2 = States_failed)"
    using a b unfolding hook_effect_def
    by (elim conjE disjE) (simp_all add: States_defs)
  show ?thesis
    using a b p s by (simp add: hook_effect_def)
qed

lemma hook_effect_objects: "hook_effect e e1 \<Longrightarrow> hook_effect e (e1\<lparr>n_objects := k\<rparr>)"
  by (auto simp: hook_effect_def in_hook_def promise_kept_def)

lemma in_hook_cases:
  assumes "in_hook e"
  obtains "x_state e = 2" "x_isInside e" | "x_state e = 4" "x_isInside e" | "x_state e = 8"
    | "x_state e = 16" | "x_state e = 32" | "x_state e = 64"
  using assms by (auto simp: in_hook_def hook_states_def States_defs)

lemma done_in_hook:
  assumes "in_hook e"
  shows "\<exists>out e1. done_method v e = Some (out, e1) \<and> hook_effect e e1"
  using assms
  by (cases rule: in_hook_cases)
     (simp_all add: done_method_def andThen_def uu_assertStates_def throw_new_def States_defs
        hook_effect_def in_hook_def hook_states_def promise_kept_def)

lemma uu_reject_state:
  "x_state (uu_reject r e) = States_canceled \<or> x_state (uu_reject r e) = States_failed"
  by (simp add: uu_reject_def Let_def)

lemma uu_reject_fields:
  "x_isInside (uu_reject r e) = x_isInside e"
  "chain (uu_reject r e) = chain e"
  "n_onPhaseInit (uu_reject r e) = n_onPhaseInit e"
  "n_onPhaseWill (uu_reject r e) = n_onPhaseWill e"
  "n_onPhaseDo (uu_reject r e) = n_onPhaseDo e"
  "n_onPhaseFinally (uu_reject r e) = n_onPhaseFinally e"
  "warnings (uu_reject r e) = warnings e"
  "x_promiseControl (uu_reject r e) = x_promiseControl e"
  by (simp_all add: uu_reject_def Let_def)

lemma reject_in_hook:
  assumes "in_hook e"
  shows "\<exists>out e1. reject rh env r e = Some (out, e1) \<and> hook_effect e e1"
proof -
  have st: "x_state (uu_reject r e) = 32 \<or> x_state (uu_reject r e) = 64"
    using uu_reject_state [of r e] by (simp add: States_defs)
  show ?thesis
    using assms st
    by (cases rule: in_hook_cases; elim disjE)
       (simp_all add: reject_def andThen_def uu_assertStates_def throw_new_def States_defs bit_defs
          hook_effect_def in_hook_def hook_states_def promise_kept_def uu_reject_fields)
qed

lemma execute_in_hook:
  assumes "in_hook e"
  shows "\<exists>out e1. execute rh env e = Some (out, e1) \<and> hook_effect e e1"
  using assms
  by (cases rule: in_hook_cases)
     (simp_all add: execute_def uu_callInside_def andThen_def throw_new_def States_defs
        hook_effect_def in_hook_def hook_states_def promise_kept_def)

lemma executeWill_in_hook:
  assumes "in_hook e"
  shows "\<exists>out e1. executeWill rh env e = Some (out, e1) \<and> hook_effect e e1"
  using assms
  by (cases rule: in_hook_cases)
     (simp_all add: executeWill_def uu_callInside_def andThen_def throw_new_def States_defs
        hook_effect_def in_hook_def hook_states_def promise_kept_def)

lemma get_promise_in_hook:
  assumes "in_hook e"
  shows "\<exists>out e1. get_promise e = Some (out, e1) \<and> hook_effect e e1"
  using assms
  by (cases rule: in_hook_cases; cases "x_promiseControl e")
     (simp_all add: get_promise_def uu_getPromiseControl_def uu_createPromiseControl_def Let_def
        States_defs bit_defs hook_effect_def in_hook_def hook_states_def promise_kept_def)

lemma perform_in_hook:
  assumes "in_hook e"
  shows "\<exists>out e1. perform rh env c e = Some (out, e1) \<and> hook_effect e e1"
  using assms
  by (cases c)
     (simp_all add: perform_def done_in_hook reject_in_hook execute_in_hook
        executeWill_in_hook get_promise_in_hook)

lemma run_hook_in_hook:
  assumes callf: "\<And>c e. in_hook e \<Longrightarrow> \<exists>out e1. callf c e = Some (out, e1) \<and> hook_effect e e1"
  shows "in_hook e \<Longrightarrow> \<exists>out e1. run_hook callf ss e = Some (out, e1) \<and> hook_effect e e1"
proof (induction ss arbitrary: e)
  case Nil
  then show ?case by (simp add: hook_effect_refl)
next
  case (Cons s ss)
  show ?case
  proof (cases s)
    case (Invoke c)
    obtain out e1 where c1: "callf c e = Some (out, e1)" and h1: "hook_effect e e1"
      using callf [OF Cons.prems] by blast
    have in1: "in_hook e1" using h1 by (simp add: hook_effect_def)
    obtain out2 e2 where c2: "run_hook callf ss e1 = Some (out2, e2)" and h2: "hook_effect e1 e2"
      using Cons.IH [OF in1] by blast
    show ?thesis
    proof (cases out)
      case (Return r)
      with Invoke c1 c2 h1 h2 show ?thesis by (auto intro: hook_effect_trans)
    next
      case (Raise x)
      with Invoke c1 h1 show ?thesis by auto
    qed
  next
    case (TryInvoke c)
    obtain out e1 where c1: "callf c e = Some (out, e1)" and h1: "hook_effect e e1"
      using callf [OF Cons.prems] by blast
    have in1: "in_hook e1" using h1 by (simp add: hook_effect_def)
    obtain out2 e2 where c2: "run_hook callf ss e1 = Some (out2, e2)" and h2: "hook_effect e1 e2"
      using Cons.IH [OF in1] by blast
    from TryInvoke c1 c2 h1 h2 show ?thesis by (auto intro: hook_effect_trans)
  next
    case (Throw v)
    with Cons.prems show ?thesis by (simp add: hook_effect_refl)
  qed
qed

lemma hooks_in_hook:
  "in_hook e \<Longrightarrow> \<exists>out e1. hooks n env ss e = Some (out, e1) \<and> hook_effect e e1"
  unfolding hooks_def
  by (rule run_hook_in_hook) (simp add: perform_in_hook)

section \<open>Invariants of a run\<close>

lemma hooks_runner: "hook_runner (hooks n env)"
  by (simp add: hook_runner_def hooks_in_hook)

lemma hook_runnerD:
  "hook_runner rh \<Longrightarrow> in_hook e \<Longrightarrow> \<exists>out e1. rh ss e = Some (out, e1) \<and> hook_effect e e1"
  by (simp add: hook_runner_def)

lemma same_promise_refl [simp]: "same_promise e e"
  by (simp add: same_promise_def)

lemma same_promise_trans: "same_promise e e1 \<Longrightarrow> same_promise e1 e2 \<Longrightarrow> same_promise e e2"
  unfolding same_promise_def by fastforce

lemma same_promise_upd [simp]:
  "same_promise e (e1\<lparr>chain := c\<rparr>) = same_promise e e1"
  "same_promise e (e1\<lparr>x_isInside := b\<rparr>) = same_promise e e1"
  "same_promise e (e1\<lparr>n_objects := k\<rparr>) = same_promise e e1"
  "same_promise e (e1\<lparr>warnings := w\<rparr>) = same_promise e e1"
  "same_promise (e\<lparr>chain := c\<rparr>) e1 = same_promise e e1"
  "same_promise (e\<lparr>x_isInside := b\<rparr>) e1 = same_promise e e1"
  by (simp_all add: same_promise_def)

lemma advance_refl: "advance e e"
  by (simp add: advance_def same_promise_refl)

lemma advance_trans: "advance e e1 \<Longrightarrow> advance e1 e2 \<Longrightarrow> advance e e2"
  unfolding advance_def using same_promise_trans by fastforce

lemma promise_kept_same: "promise_kept e e1 \<Longrightarrow> same_promise e e1"
  by (auto simp: promise_kept_def same_promise_def)

lemma in_hook_not_finished: "in_hook e \<Longrightarrow> \<not> isFinished e"
  by (erule in_hook_cases) (simp_all add: isFinished_def States_defs)

lemma hook_effect_state_le: "hook_effect e e1 \<Longrightarrow> in_hook e \<Longrightarrow> x_state e \<le> x_state e1"
  unfolding hook_effect_def
  by (erule in_hook_cases; elim conjE disjE) (simp_all add: States_defs)

lemma hook_effect_advance: "hook_effect e e1 \<Longrightarrow> in_hook e \<Longrightarrow> advance e e1"
  using hook_effect_state_le [of e e1]
  by (simp add: advance_def hook_effect_def promise_kept_same)

lemma hooks_counted_cong:
  assumes "hooks_counted e" and "x_state e1 = x_state e"
    and "n_onPhaseInit e1 = n_onPhaseInit e" and "n_onPhaseWill e1 = n_onPhaseWill e"
    and "n_onPhaseDo e1 = n_onPhaseDo e" and "n_onPhaseFinally e1 = n_onPhaseFinally e"
  shows "hooks_counted e1"
  using assms by (simp add: hooks_counted_def)

lemma hooks_counted_le:
  assumes "hooks_counted e"
  shows "n_onPhaseInit e \<le> 1" "n_onPhaseWill e \<le> 1" "n_onPhaseDo e \<le> 1"
    "n_onPhaseFinally e \<le> 1"
  using assms by (simp_all add: hooks_counted_def)

lemma hooks_counted_rejected:
  assumes hc: "hooks_counted e"
    and st: "x_state e1 = States_canceled \<or> x_state e1 = States_failed"
    and n: "n_onPhaseInit e1 = n_onPhaseInit e" "n_onPhaseWill e1 = n_onPhaseWill e"
      "n_onPhaseDo e1 = n_onPhaseDo e" "n_onPhaseFinally e1 = n_onPhaseFinally e"
  shows "hooks_counted e1"
  using st
proof
  assume "x_state e1 = States_canceled"
  then show ?thesis
    using hooks_counted_le [OF hc] n
    by (simp add: hooks_counted_def finished_states_def States_defs)
next
  assume "x_state e1 = States_failed"
  then show ?thesis
    using hooks_counted_le [OF hc] n
    by (simp add: hooks_counted_def finished_states_def States_defs)
qed

lemma hook_effect_counted:
  assumes he: "hook_effect e e1" and ih: "in_hook e" and hc: "hooks_counted e"
  shows "hooks_counted e1"
proof -
  have n: "n_onPhaseInit e1 = n_onPhaseInit e" "n_onPhaseWill e1 = n_onPhaseWill e"
    "n_onPhaseDo e1 = n_onPhaseDo e" "n_onPhaseFinally e1 = n_onPhaseFinally e"
    using he by (simp_all add: hook_effect_def)
  have c: "x_state e1 = x_state e
      \<or> x_state e = States_do \<and> x_state e1 = States_did
      \<or> x_state e < States_did \<and> (x_state e1 = States_canceled \<or> x_state e1 = States_failed)"
    using he unfolding hook_effect_def by blast
  then show ?thesis
  proof (elim disjE conjE)
    assume "x_state e1 = x_state e"
    then show ?thesis using hooks_counted_cong [OF hc _ n] by simp
  next
    assume "x_state e = States_do" "x_state e1 = States_did"
    then show ?thesis
      using hc n by (simp add: hooks_counted_def finished_states_def States_defs)
  next
    assume "x_state e1 = States_canceled"
    then show ?thesis using hooks_counted_rejected [OF hc _ n] by simp
  next
    assume "x_state e1 = States_failed"
    then show ?thesis using hooks_counted_rejected [OF hc _ n] by simp
  qed
qed

lemma hook_effect_promise:
  assumes "hook_effect e e1" and "in_hook e" and "promise_consistent e"
  shows "promise_consistent e1"
proof -
  have nf: "\<not> isFinished e" "\<not> isFinished e1"
    using assms in_hook_not_finished by (auto simp: hook_effect_def)
  have "promise_kept e e1" using assms(1) by (simp add: hook_effect_def)
  then show ?thesis using assms(3) nf
    by (auto simp: promise_kept_def promise_consistent_def)
qed

lemma in_hook_driving_state: "in_hook e \<Longrightarrow> x_state e \<in> driving_states"
  by (auto simp: in_hook_def hook_states_def driving_states_def)

lemma driving_after_hook:
  assumes "hook_effect e e1" and "in_hook e" and "x_isInside e" and "hooks_counted e"
    and "promise_consistent e" and "n_onPhaseFinally e = 0"
  shows "driving e1"
  using assms hook_effect_counted [of e e1] hook_effect_promise [of e e1]
    in_hook_driving_state [of e1]
  by (simp add: driving_def hook_effect_def)

lemma driving_cases:
  assumes "driving e"
  obtains "x_state e = 1" | "x_state e = 2" | "x_state e = 4" | "x_state e = 8"
    | "x_state e = 16" | "x_state e = 32" | "x_state e = 64"
  using assms by (auto simp: driving_def driving_states_def States_defs)

section \<open>The init and will phases\<close>

lemma hooks_counted_upd [simp]:
  "hooks_counted (e\<lparr>x_isInside := b\<rparr>) = hooks_counted e"
  "hooks_counted (e\<lparr>n_objects := k\<rparr>) = hooks_counted e"
  "hooks_counted (e\<lparr>chain := c\<rparr>) = hooks_counted e"
  "hooks_counted (e\<lparr>warnings := w\<rparr>) = hooks_counted e"
  "hooks_counted (e\<lparr>x_promiseControl := p\<rparr>) = hooks_counted e"
  by (simp_all add: hooks_counted_def)

lemma promise_consistent_upd [simp]:
  "promise_consistent (e\<lparr>x_isInside := b\<rparr>) = promise_consistent e"
  "promise_consistent (e\<lparr>n_objects := k\<rparr>) = promise_consistent e"
  "promise_consistent (e\<lparr>chain := c\<rparr>) = promise_consistent e"
  "promise_consistent (e\<lparr>warnings := w\<rparr>) = promise_consistent e"
  "promise_consistent (e\<lparr>n_onPhaseInit := i\<rparr>) = promise_consistent e"
  "promise_consistent (e\<lparr>n_onPhaseWill := i\<rparr>) = promise_consistent e"
  "promise_consistent (e\<lparr>n_onPhaseDo := i\<rparr>) = promise_consistent e"
  "promise_consistent (e\<lparr>n_onPhaseFinally := i\<rparr>) = promise_consistent e"
  by (simp_all add: promise_consistent_def isFinished_def isDone_def)

lemma promise_consistent_unfinished:
  assumes "promise_consistent e" and "\<not> isFinished e" and "\<not> isFinished e1"
    and "x_promiseControl e1 = x_promiseControl e"
  shows "promise_consistent e1"
  using assms by (simp add: promise_consistent_def)

lemma driving_not_finished: "driving e \<Longrightarrow> \<not> isFinished e"
  by (erule driving_cases) (simp_all add: isFinished_def States_defs)

lemma init_phase:
  assumes rh: "hook_runner rh" and d: "driving e"
  shows "\<exists>out e1. uu_executePhaseInit rh env e = Some (out, e1) \<and> driving e1 \<and> advance e e1
           \<and> States_init \<le> x_state e1
           \<and> (x_state e1 < States_will \<or> States_will \<le> x_state e \<or> States_did \<le> x_state e1)
           \<and> (x_state e1 = States_did \<longrightarrow> x_state e = States_did)
           \<and> n_onPhaseWill e1 = n_onPhaseWill e \<and> n_onPhaseDo e1 = n_onPhaseDo e
           \<and> n_onPhaseFinally e1 = n_onPhaseFinally e"
proof (cases "x_state e < States_init")
  case True
  have st: "x_state e = 1"
    using d True by (cases rule: driving_cases) (simp_all add: States_defs)
  define e0 where "e0 = e\<lparr>x_state := States_init, n_onPhaseInit := Suc (n_onPhaseInit e)\<rparr>"
  have ins: "x_isInside e0" using d by (simp add: e0_def driving_def)
  have ih: "in_hook e0" using ins by (simp add: e0_def in_hook_def hook_states_def)
  have hc: "hooks_counted e0"
    using d st by (simp add: e0_def driving_def hooks_counted_def finished_states_def States_defs)
  have pc: "promise_consistent e0"
    using d st by (simp add: e0_def driving_def promise_consistent_def isFinished_def States_defs)
  have nf: "n_onPhaseFinally e0 = 0" using d by (simp add: e0_def driving_def)
  obtain out e1 where r: "rh (u_onPhaseInit env) e0 = Some (out, e1)" and he: "hook_effect e0 e1"
    using hook_runnerD [OF rh ih] by blast
  have d1: "driving e1" using driving_after_hook [OF he ih ins hc pc nf] .
  have a0: "advance e e0"
    using st by (simp add: e0_def advance_def same_promise_def States_defs)
  have a1: "advance e e1" using advance_trans [OF a0 hook_effect_advance [OF he ih]] .
  have le: "States_init \<le> x_state e1"
    using hook_effect_state_le [OF he ih] by (simp add: e0_def)
  have sts: "x_state e1 < States_will \<or> States_will \<le> x_state e \<or> States_did \<le> x_state e1"
    using he by (auto simp: hook_effect_def e0_def States_defs)
  have cnt: "n_onPhaseWill e1 = n_onPhaseWill e" "n_onPhaseDo e1 = n_onPhaseDo e"
    "n_onPhaseFinally e1 = n_onPhaseFinally e"
    using he by (simp_all add: hook_effect_def e0_def)
  have nd: "x_state e1 \<noteq> States_did"
    using he by (auto simp: hook_effect_def e0_def States_defs)
  show ?thesis
    using True r d1 a1 le sts cnt nd by (simp add: uu_executePhaseInit_def e0_def)
next
  case False
  then show ?thesis using d by (auto simp: uu_executePhaseInit_def advance_refl)
qed

lemma uu_reject_counted_at:
  assumes "hooks_counted e"
  shows "hooks_counted (uu_reject r (e\<lparr>x_state := s\<rparr>))"
  using hooks_counted_rejected [OF assms uu_reject_state [of r "e\<lparr>x_state := s\<rparr>"]]
  by (simp add: uu_reject_fields)

lemma uu_reject_counted:
  assumes "hooks_counted e" and "x_state e < States_did"
  shows "hooks_counted (uu_reject r e)"
  using hooks_counted_rejected [OF assms(1) uu_reject_state [of r e]]
  by (simp add: uu_reject_fields)

lemma uu_reject_promise:
  assumes "promise_consistent e" and "\<not> isFinished e"
  shows "promise_consistent (uu_reject r e)"
proof -
  have "\<not> isFinished (uu_reject r e)"
    using uu_reject_state [of r e] by (auto simp: isFinished_def States_defs)
  then show ?thesis
    using assms by (simp add: promise_consistent_def uu_reject_fields)
qed

lemma uu_reject_advance:
  assumes "x_state e < States_did"
  shows "advance e (uu_reject r e)"
  using assms uu_reject_state [of r e]
  by (auto simp: advance_def same_promise_def uu_reject_fields States_defs)

lemma uu_reject_driving_state: "x_state (uu_reject r e) \<in> driving_states"
  using uu_reject_state [of r e] by (auto simp: driving_states_def)

lemma will_phase:
  assumes rh: "hook_runner rh" and d: "driving e" and ge: "States_init \<le> x_state e"
  shows "\<exists>out e1. uu_executePhaseWill rh env e = Some (out, e1) \<and> driving e1 \<and> advance e e1
           \<and> States_will \<le> x_state e1
           \<and> (x_state e1 = States_did \<longrightarrow> x_state e = States_did)
           \<and> n_onPhaseInit e1 = n_onPhaseInit e \<and> n_onPhaseDo e1 = n_onPhaseDo e
           \<and> n_onPhaseFinally e1 = n_onPhaseFinally e
           \<and> (invalid env \<longrightarrow>
                 x_state e < States_will \<or> States_did \<le> x_state e \<longrightarrow>
                 States_did \<le> x_state e1 \<and> n_onPhaseWill e1 = n_onPhaseWill e)"
proof (cases "x_state e < States_will")
  case True
  have st: "x_state e = 2"
    using d True ge by (cases rule: driving_cases) (simp_all add: States_defs)
  define e0 where "e0 = e\<lparr>x_state := States_will\<rparr>"
  have ins0: "x_isInside e0" using d by (simp add: e0_def driving_def)
  have hce: "hooks_counted e" and nfe: "n_onPhaseFinally e = 0"
    using d by (simp_all add: driving_def)
  have nf0: "\<not> isFinished e0" by (simp add: e0_def isFinished_def States_defs)
  have pc0: "promise_consistent e0"
    using d driving_not_finished [OF d] nf0
    by (simp add: e0_def driving_def promise_consistent_def)
  have a0: "advance e e0"
    using st by (auto simp: e0_def advance_def same_promise_def States_defs)
  show ?thesis
  proof (cases "\<exists>v vs. validate env = Some (v # vs)")
    case True
    then obtain v vs where val: "validate env = Some (v # vs)" by blast
    define e1 where "e1 = uu_reject (User v) e0"
    have lt: "x_state e0 < States_did" by (simp add: e0_def States_defs)
    have d1: "driving e1"
      using ins0 uu_reject_counted_at [OF hce, of "User v" States_will]
        uu_reject_promise [OF pc0 nf0] uu_reject_driving_state [of "User v" e0] nfe
      by (simp add: e1_def e0_def driving_def uu_reject_fields)
    have a1: "advance e e1"
      using advance_trans [OF a0 uu_reject_advance [OF lt]] by (simp add: e1_def)
    have s1: "States_did \<le> x_state e1"
      using uu_reject_state [of "User v" e0] by (auto simp: e1_def States_defs)
    have cnt: "n_onPhaseInit e1 = n_onPhaseInit e" "n_onPhaseDo e1 = n_onPhaseDo e"
      "n_onPhaseFinally e1 = n_onPhaseFinally e" "n_onPhaseWill e1 = n_onPhaseWill e"
      by (simp_all add: e1_def e0_def uu_reject_fields)
    have r: "uu_executePhaseWill rh env e = Some (Return RVoid, e1)"
      using \<open>x_state e < States_will\<close> val
      by (simp add: uu_executePhaseWill_def e1_def e0_def)
    have nd: "x_state e1 \<noteq> States_did"
      using uu_reject_state [of "User v" e0] by (auto simp: e1_def States_defs)
    have "States_will \<le> x_state e1" using s1 by (simp add: States_defs)
    then show ?thesis using r d1 a1 s1 cnt nd by simp
  next
    case False
    define e2 where "e2 = e0\<lparr>n_onPhaseWill := Suc (n_onPhaseWill e0)\<rparr>"
    have r0: "uu_executePhaseWill rh env e = rh (u_onPhaseWill env) e2"
      using False \<open>x_state e < States_will\<close>
      by (cases "validate env"; cases "the (validate env)")
         (simp_all add: uu_executePhaseWill_def e2_def e0_def Let_def)
    have ins: "x_isInside e2" using ins0 by (simp add: e2_def)
    have ih: "in_hook e2" using ins by (simp add: e2_def e0_def in_hook_def hook_states_def)
    have hc: "hooks_counted e2"
      using hce st
      by (simp add: e2_def e0_def hooks_counted_def finished_states_def States_defs)
    have pc: "promise_consistent e2" using pc0 by (simp add: e2_def)
    have nf2: "n_onPhaseFinally e2 = 0" using nfe by (simp add: e2_def e0_def)
    obtain out e1 where r: "rh (u_onPhaseWill env) e2 = Some (out, e1)" and he: "hook_effect e2 e1"
      using hook_runnerD [OF rh ih] by blast
    have d1: "driving e1" using driving_after_hook [OF he ih ins hc pc nf2] .
    have a2: "advance e e2"
      using a0 by (simp add: e2_def advance_def same_promise_def)
    have a1: "advance e e1" using advance_trans [OF a2 hook_effect_advance [OF he ih]] .
    have le: "States_will \<le> x_state e1"
      using hook_effect_state_le [OF he ih] by (simp add: e2_def e0_def)
    have cnt: "n_onPhaseInit e1 = n_onPhaseInit e" "n_onPhaseDo e1 = n_onPhaseDo e"
      "n_onPhaseFinally e1 = n_onPhaseFinally e"
      using he by (simp_all add: hook_effect_def e2_def e0_def)
    have nd: "x_state e1 \<noteq> States_did"
      using he by (auto simp: hook_effect_def e2_def e0_def States_defs)
    have "\<not> invalid env" using False by (simp add: invalid_def)
    then show ?thesis
      using r0 r d1 a1 le cnt nd by simp
  qed
next
  case False
  then show ?thesis using d by (simp add: uu_executePhaseWill_def advance_refl States_defs)
qed

section \<open>The do phase and the catch handler\<close>

lemma in_hook_settled: "in_hook e \<Longrightarrow> isSettled e \<longleftrightarrow> States_did \<le> x_state e"
  by (erule in_hook_cases) (simp_all add: bit_defs States_defs)

lemma doDefaultAsync_effect:
  assumes rh: "hook_runner rh" and ih: "in_hook e"
  shows "\<exists>out e1. uu_executePhaseDoDefaultAsync rh env e = Some (out, e1) \<and> hook_effect e e1"
proof (cases "isSettled e")
  case True
  then show ?thesis using ih by (simp add: uu_executePhaseDoDefaultAsync_def hook_effect_refl)
next
  case False
  obtain out e1 where r: "rh (u_doDefault env) e = Some (out, e1)" and he: "hook_effect e e1"
    using hook_runnerD [OF rh ih] by blast
  show ?thesis
    using False r he by (cases out) (simp_all add: uu_executePhaseDoDefaultAsync_def andThen_def)
qed

lemma do_phase:
  assumes rh: "hook_runner rh" and d: "driving e" and ge: "States_will \<le> x_state e"
  shows "\<exists>out e1. uu_executePhaseDo rh env e = Some (out, e1) \<and> driving e1 \<and> advance e e1
           \<and> States_do \<le> x_state e1
           \<and> n_onPhaseInit e1 = n_onPhaseInit e \<and> n_onPhaseWill e1 = n_onPhaseWill e
           \<and> n_onPhaseFinally e1 = n_onPhaseFinally e
           \<and> (States_do \<le> x_state e \<longrightarrow> e1 = e \<and> out = Return RNull)"
proof (cases "x_state e < States_do")
  case True
  have st: "x_state e = 4"
    using d True ge by (cases rule: driving_cases) (simp_all add: States_defs)
  define e0 where "e0 = e\<lparr>x_state := States_do, n_onPhaseDo := Suc (n_onPhaseDo e)\<rparr>"
  have ins: "x_isInside e0" using d by (simp add: e0_def driving_def)
  have ih: "in_hook e0" using ins by (simp add: e0_def in_hook_def hook_states_def)
  have hc: "hooks_counted e0"
    using d st by (simp add: e0_def driving_def hooks_counted_def finished_states_def States_defs)
  have pc: "promise_consistent e0"
    using d driving_not_finished [OF d]
    by (simp add: e0_def driving_def promise_consistent_def isFinished_def States_defs)
  have nf0: "n_onPhaseFinally e0 = 0" using d by (simp add: e0_def driving_def)
  have a0: "advance e e0"
    using st by (auto simp: e0_def advance_def same_promise_def States_defs)
  obtain out1 e1 where r1: "rh (u_onPhaseDo env) e0 = Some (out1, e1)" and he1: "hook_effect e0 e1"
    using hook_runnerD [OF rh ih] by blast
  have ih1: "in_hook e1" using he1 by (simp add: hook_effect_def)
  obtain out2 e2 where r2: "rh (u_doDefault env) e1 = Some (out2, e2)" and he2: "hook_effect e1 e2"
    using hook_runnerD [OF rh ih1] by blast
  obtain out3 e3 where r3: "uu_executePhaseDoDefaultAsync rh env e1 = Some (out3, e3)"
    and he3: "hook_effect e1 e3"
    using doDefaultAsync_effect [OF rh ih1] by blast
  have "\<exists>out e4. uu_executePhaseDo rh env e = Some (out, e4) \<and> hook_effect e0 e4"
  proof (cases out1)
    case (Raise x)
    then show ?thesis using True r1 he1 by (simp add: uu_executePhaseDo_def andThen_def e0_def)
  next
    case (Return r)
    show ?thesis
    proof (cases "isSync env")
      case sync: True
      show ?thesis
      proof (cases "isSettled e1")
        case True
        then show ?thesis using \<open>x_state e < States_do\<close> Return sync r1 he1
          by (simp add: uu_executePhaseDo_def andThen_def e0_def)
      next
        case False
        then show ?thesis
          using \<open>x_state e < States_do\<close> Return sync r1 r2 hook_effect_trans [OF he1 he2]
          by (cases out2) (simp_all add: uu_executePhaseDo_def andThen_def e0_def returns_def)
      qed
    next
      case async: False
      show ?thesis
      proof (cases "\<not> doReturnsPromise env \<or> isSettled e1")
        case True
        then show ?thesis
          using \<open>x_state e < States_do\<close> Return async r1 r3 hook_effect_trans [OF he1 he3]
          by (auto simp: uu_executePhaseDo_def andThen_def e0_def)
      next
        case False
        then show ?thesis
          using \<open>x_state e < States_do\<close> Return async r1 he1
          by (simp add: uu_executePhaseDo_def andThen_def e0_def)
      qed
    qed
  qed
  then obtain out e4 where r: "uu_executePhaseDo rh env e = Some (out, e4)"
    and he: "hook_effect e0 e4" by blast
  have d4: "driving e4" using driving_after_hook [OF he ih ins hc pc nf0] .
  have a4: "advance e e4" using advance_trans [OF a0 hook_effect_advance [OF he ih]] .
  have le: "States_do \<le> x_state e4"
    using hook_effect_state_le [OF he ih] by (simp add: e0_def)
  have cnt: "n_onPhaseInit e4 = n_onPhaseInit e" "n_onPhaseWill e4 = n_onPhaseWill e"
    "n_onPhaseFinally e4 = n_onPhaseFinally e"
    using he by (simp_all add: hook_effect_def e0_def)
  show ?thesis using True r d4 a4 le cnt by simp
next
  case False
  then show ?thesis using d by (simp add: uu_executePhaseDo_def advance_refl)
qed

text \<open>
  The catch handler \<^verbatim>\<open>__rejectOrLog\<close>: it returns or throws its \<^verbatim>\<open>TypeError\<close>, and in
  both cases leaves the execution in an outcome, with the counters as they were.
\<close>

lemma rejectOrLog_settles:
  assumes hs: "x_state e \<in> hook_states" and hc: "hooks_counted e" and pc: "promise_consistent e"
  shows "\<exists>out e1. uu_rejectOrLog env r e = Some (out, e1)
         \<and> x_state e1 \<in> settling_states \<and> x_state e1 \<in> outcome_states
         \<and> States_did \<le> x_state e1
         \<and> hooks_counted e1 \<and> promise_consistent e1 \<and> advance e e1
         \<and> n_onPhaseInit e1 = n_onPhaseInit e \<and> n_onPhaseWill e1 = n_onPhaseWill e
         \<and> n_onPhaseDo e1 = n_onPhaseDo e \<and> n_onPhaseFinally e1 = n_onPhaseFinally e
         \<and> (x_state e \<noteq> States_did \<longrightarrow> x_state e1 \<noteq> States_did)
         \<and> (isSettled e \<longrightarrow> x_state e1 = x_state e \<and> x_error e1 = x_error e
               \<and> x_result e1 = x_result e)
         \<and> (warnEnabled env \<or> out = Return RVoid)"
proof (cases "isSettled e")
  case True
  then have a: "States_did \<le> x_state e" "x_state e \<in> settling_states"
    "x_state e \<in> outcome_states"
    using hs by (auto simp: hook_states_def settling_states_def outcome_states_def bit_defs
          States_defs)
  show ?thesis
    using True a hc pc
    by (simp add: uu_rejectOrLog_def throw_new_def advance_def)
next
  case False
  then have lt: "x_state e < States_did"
    using hs by (auto simp: hook_states_def bit_defs States_defs)
  have nf: "\<not> isFinished e"
    using hs by (auto simp: hook_states_def bit_defs States_defs)
  have s: "x_state (uu_reject r e) \<in> settling_states" "States_did \<le> x_state (uu_reject r e)"
    "x_state (uu_reject r e) \<in> outcome_states" "x_state (uu_reject r e) \<noteq> States_did"
    using uu_reject_state [of r e]
    by (auto simp: settling_states_def outcome_states_def States_defs)
  show ?thesis
    using False s uu_reject_counted [OF hc lt] uu_reject_promise [OF pc nf]
      uu_reject_advance [OF lt]
    by (simp add: uu_rejectOrLog_def uu_reject_fields)
qed
section \<open>The finally phase\<close>

lemma settle_promise_consistent:
  assumes pc: "\<forall>pc. x_promiseControl e = Some pc \<longrightarrow> status pc = Pending \<and> hasResolvers pc"
    and fin: "isFinished e"
  shows "\<exists>e1. settle_promise e = Some (Return RVoid, e1) \<and> promise_consistent e1
           \<and> same_promise e e1
           \<and> e1\<lparr>x_promiseControl := x_promiseControl e\<rparr> = e"
proof (cases "x_promiseControl e")
  case None
  then show ?thesis
    by (simp add: settle_promise_def promise_consistent_def same_promise_def)
next
  case (Some p)
  then have "status p = Pending" "hasResolvers p" using pc by simp_all
  then show ?thesis
    using Some fin
    by (simp add: settle_promise_def promise_consistent_def same_promise_def
          isFinished_def isDone_def)
qed

text \<open>
  The finally phase either completes, with the \<open>finished\<close> bit and the promise settled, or
  is left by the \<^verbatim>\<open>TypeError\<close> of its catch block, after the hook and before the bit. In
  both cases the outcome, the result and the error are those of the entry.
\<close>

lemma finish_and_settle:
  assumes so: "x_state e \<in> outcome_states" and pc: "promise_consistent e"
  shows "\<exists>e1. andThen (\<lambda>e3. Some (Return RVoid, e3\<lparr>x_state := x_state e3 OR States_finished\<rparr>))
               settle_promise e = Some (Return RVoid, e1)
           \<and> x_state e1 = x_state e OR States_finished \<and> x_state e1 \<in> finished_states
           \<and> x_result e1 = x_result e \<and> x_error e1 = x_error e
           \<and> promise_consistent e1 \<and> same_promise e e1
           \<and> chain e1 = chain e \<and> x_isInside e1 = x_isInside e
           \<and> n_onPhaseInit e1 = n_onPhaseInit e \<and> n_onPhaseWill e1 = n_onPhaseWill e
           \<and> n_onPhaseDo e1 = n_onPhaseDo e \<and> n_onPhaseFinally e1 = n_onPhaseFinally e"
proof -
  have sa: "x_state e = 16 \<or> x_state e = 32 \<or> x_state e = 64"
    using so by (auto simp: outcome_states_def States_defs)
  have nf: "\<not> isFinished e" using sa by (auto simp: isFinished_def States_defs)
  define ee where "ee = e\<lparr>x_state := x_state e OR States_finished\<rparr>"
  have fe: "isFinished ee" using sa by (auto simp: ee_def isFinished_def States_defs)
  have pe: "\<forall>p. x_promiseControl ee = Some p \<longrightarrow> status p = Pending \<and> hasResolvers p"
    using pc nf by (simp add: ee_def promise_consistent_def)
  obtain ef where s3: "settle_promise ee = Some (Return RVoid, ef)"
    and pcf: "promise_consistent ef" and spf: "same_promise ee ef"
    and eq: "ef\<lparr>x_promiseControl := x_promiseControl ee\<rparr> = ee"
    using settle_promise_consistent [OF pe fe] by blast
  have eff: "x_state ef = x_state ee" "x_result ef = x_result ee" "x_error ef = x_error ee"
    "chain ef = chain ee" "x_isInside ef = x_isInside ee"
    "n_onPhaseInit ef = n_onPhaseInit ee" "n_onPhaseWill ef = n_onPhaseWill ee"
    "n_onPhaseDo ef = n_onPhaseDo ee" "n_onPhaseFinally ef = n_onPhaseFinally ee"
    using arg_cong [OF eq, of x_state] arg_cong [OF eq, of x_result] arg_cong [OF eq, of x_error]
      arg_cong [OF eq, of chain] arg_cong [OF eq, of x_isInside]
      arg_cong [OF eq, of n_onPhaseInit] arg_cong [OF eq, of n_onPhaseWill]
      arg_cong [OF eq, of n_onPhaseDo] arg_cong [OF eq, of n_onPhaseFinally]
    by simp_all
  have fs: "x_state ef \<in> finished_states"
    using eff sa by (auto simp: ee_def finished_states_def States_defs)
  have sp: "same_promise e ef" using spf by (simp add: same_promise_def ee_def)
  show ?thesis
    using s3 eff fs pcf sp by (simp add: andThen_def ee_def)
qed

lemma hooks_counted_finished:
  assumes hc: "hooks_counted e" and n0: "n_onPhaseFinally e = 0"
    and so: "x_state e \<in> settling_states"
    and st: "x_state e1 = (if x_state e = States_do then States_did else x_state e)
             \<or> x_state e1 = (if x_state e = States_do then States_did else x_state e)
                  OR States_finished"
    and n: "n_onPhaseInit e1 = n_onPhaseInit e" "n_onPhaseWill e1 = n_onPhaseWill e"
      "n_onPhaseDo e1 = n_onPhaseDo e" "n_onPhaseFinally e1 = Suc (n_onPhaseFinally e)"
  shows "hooks_counted e1"
proof -
  have c: "x_state e = 8 \<or> x_state e = 16 \<or> x_state e = 32 \<or> x_state e = 64"
    using so by (auto simp: settling_states_def States_defs)
  show ?thesis
    using c st
    by (elim disjE)
       (use hc n0 n in \<open>simp_all add: hooks_counted_def finished_states_def States_defs\<close>)
qed

lemma finally_phase:
  assumes rh: "hook_runner rh" and ss: "x_state e \<in> settling_states"
    and pc: "promise_consistent e"
  shows "\<exists>out e1. uu_executePhaseFinally rh env e = Some (out, e1)
           \<and> (out = Return RVoid
                 \<and> x_state e1 = (if x_state e = States_do then States_did else x_state e)
                                  OR States_finished
                 \<and> x_state e1 \<in> finished_states
               \<or> (\<exists>x. out = Raise x) \<and> warnEnabled env
                 \<and> x_state e1 = (if x_state e = States_do then States_did else x_state e)
                 \<and> x_state e1 \<in> outcome_states)
           \<and> x_result e1 = (if x_state e = States_do then User VUndefined else x_result e)
           \<and> x_error e1 = x_error e
           \<and> (hooks_counted e \<longrightarrow> n_onPhaseFinally e = 0 \<longrightarrow> hooks_counted e1)
           \<and> promise_consistent e1
           \<and> advance e e1
           \<and> n_onPhaseInit e1 = n_onPhaseInit e \<and> n_onPhaseWill e1 = n_onPhaseWill e
           \<and> n_onPhaseDo e1 = n_onPhaseDo e
           \<and> n_onPhaseFinally e1 = Suc (n_onPhaseFinally e)"
proof -
  have lt: "x_state e < States_finished"
    using ss by (auto simp: settling_states_def States_defs)
  have nf: "\<not> isFinished e"
    using ss by (auto simp: settling_states_def bit_defs States_defs)
  define ea where
    "ea = (if x_state e = States_do then e\<lparr>x_result := User VUndefined, x_state := States_did\<rparr>
           else e)"
  have s1: "\<exists>r. (if \<not> isSettled e then done_method (User VUndefined) else returns RVoid) e
              = Some (Return r, ea)"
    using ss
    by (auto simp: settling_states_def ea_def bit_defs States_defs done_method_def
          andThen_def uu_assertStates_def returns_def)
  have sa: "x_state ea = 16 \<or> x_state ea = 32 \<or> x_state ea = 64"
    using ss by (auto simp: settling_states_def ea_def States_defs)
  define eb where "eb = ea\<lparr>n_onPhaseFinally := Suc (n_onPhaseFinally ea)\<rparr>"
  have ih: "in_hook eb"
    using sa by (auto simp: eb_def in_hook_def hook_states_def States_defs)
  have pcb: "promise_consistent eb"
    using pc nf sa
    by (auto simp: eb_def ea_def promise_consistent_def isFinished_def States_defs)
  obtain out ec where r: "rh (u_onPhaseFinally env) eb = Some (out, ec)"
    and he: "hook_effect eb ec"
    using hook_runnerD [OF rh ih] by blast
  have same: "x_state ec = x_state ea" "x_result ec = x_result ea" "x_error ec = x_error ea"
    using he sa unfolding hook_effect_def
    by (auto simp: eb_def States_defs)
  have pcc: "promise_consistent ec" using hook_effect_promise [OF he ih pcb] .
  have soc: "x_state ec \<in> outcome_states"
    using same sa by (auto simp: outcome_states_def States_defs)
  have cnc: "n_onPhaseInit ec = n_onPhaseInit e" "n_onPhaseWill ec = n_onPhaseWill e"
    "n_onPhaseDo ec = n_onPhaseDo e" "n_onPhaseFinally ec = Suc (n_onPhaseFinally e)"
    "chain ec = chain e" "x_isInside ec = x_isInside e"
    using he by (simp_all add: hook_effect_def eb_def ea_def)
  have spc: "same_promise e ec"
    using promise_kept_same [of eb ec] he
    by (simp add: hook_effect_def same_promise_def eb_def ea_def)
  have sta: "x_state ea = (if x_state e = States_do then States_did else x_state e)"
    "x_result ea = (if x_state e = States_do then User VUndefined else x_result e)"
    "x_error ea = x_error e"
    by (simp_all add: ea_def)
  have lea: "x_state e \<le> x_state ea" using ss by (auto simp: ea_def settling_states_def States_defs)
  text \<open>What the catch block leaves: the execution after the hook, perhaps with a log entry.\<close>
  define thrown where
    "thrown = (\<exists>ex. out = Raise ex \<and> warnEnabled env \<and> \<not> (stringifies ex \<and> \<not> nullish ex))"
  define ed where
    "ed = (case out of Return q \<Rightarrow> ec
           | Raise ex \<Rightarrow> if warnEnabled env
                         then (if stringifies ex \<and> \<not> nullish ex
                               then ec\<lparr>warnings := warnings ec @ [IgnoredInFinally ex]\<rparr>
                               else ec\<lparr>n_objects := Suc (n_objects ec)\<rparr>)
                         else ec)"
  have edf: "x_state ed = x_state ec" "x_result ed = x_result ec" "x_error ed = x_error ec"
    "x_promiseControl ed = x_promiseControl ec" "chain ed = chain ec"
    "x_isInside ed = x_isInside ec"
    "n_onPhaseInit ed = n_onPhaseInit ec" "n_onPhaseWill ed = n_onPhaseWill ec"
    "n_onPhaseDo ed = n_onPhaseDo ec" "n_onPhaseFinally ed = n_onPhaseFinally ec"
    by (cases out; simp add: ed_def)+
  have s2: "tryCatch
              (\<lambda>e1. rh (u_onPhaseFinally env) (e1\<lparr>n_onPhaseFinally := Suc (n_onPhaseFinally e1)\<rparr>))
              (log_finally_error env) ea
            = Some (if thrown then Raise (Made (n_objects ec) TypeError
                                     ''Cannot read the stack of the thrown value'')
                    else Return (case out of Return q \<Rightarrow> q | Raise ex \<Rightarrow> RVoid), ed)"
    using r
    by (cases out)
       (auto simp: tryCatch_def ed_def eb_def thrown_def log_finally_error_def throw_new_def)
  have pcd: "promise_consistent ed"
    using pcc edf by (simp add: promise_consistent_def isFinished_def isDone_def)
  have sod: "x_state ed \<in> outcome_states" using soc edf by simp
  have spd: "same_promise e ed" using spc edf by (simp add: same_promise_def)
  show ?thesis
  proof (cases thrown)
    case True
    have run: "uu_executePhaseFinally rh env e
        = Some (Raise (Made (n_objects ec) TypeError ''Cannot read the stack of the thrown value''),
                ed)"
      using lt s1 s2 True by (auto simp: uu_executePhaseFinally_def andThen_def)
    have w: "warnEnabled env" using True by (auto simp: thrown_def)
    have hcd: "hooks_counted e \<longrightarrow> n_onPhaseFinally e = 0 \<longrightarrow> hooks_counted ed"
      using hooks_counted_finished [of e ed] ss edf cnc same sta by simp
    have adv: "advance e ed"
      using spd edf cnc same lea by (simp add: advance_def)
    show ?thesis
      using run w sod edf same sta cnc hcd pcd adv by simp
  next
    case False
    obtain ef where k: "andThen (\<lambda>e3. Some (Return RVoid, e3\<lparr>x_state := x_state e3 OR States_finished\<rparr>))
               settle_promise ed = Some (Return RVoid, ef)"
      and f: "x_state ef = x_state ed OR States_finished" "x_state ef \<in> finished_states"
        "x_result ef = x_result ed" "x_error ef = x_error ed"
        "promise_consistent ef" "same_promise ed ef"
        "chain ef = chain ed" "x_isInside ef = x_isInside ed"
        "n_onPhaseInit ef = n_onPhaseInit ed" "n_onPhaseWill ef = n_onPhaseWill ed"
        "n_onPhaseDo ef = n_onPhaseDo ed" "n_onPhaseFinally ef = n_onPhaseFinally ed"
      using finish_and_settle [OF sod pcd] by blast
    have run: "uu_executePhaseFinally rh env e = Some (Return RVoid, ef)"
      using lt s1 s2 k False by (auto simp: uu_executePhaseFinally_def andThen_def)
    have stf: "x_state ef = (if x_state e = States_do then States_did else x_state e)
                 OR States_finished"
      using f(1) edf same sta by simp
    have hcf: "hooks_counted e \<longrightarrow> n_onPhaseFinally e = 0 \<longrightarrow> hooks_counted ef"
      using hooks_counted_finished [of e ef] ss stf f edf cnc by simp
    have le: "x_state e \<le> x_state ef"
      using stf ss by (auto simp: settling_states_def States_defs)
    have adv: "advance e ef"
      using same_promise_trans [OF spd f(6)] f edf cnc le by (simp add: advance_def)
    show ?thesis
      using run stf f edf same sta cnc hcf adv by simp
  qed
qed

section \<open>The synchronous driver\<close>

lemma driving_hook_state: "driving e \<Longrightarrow> States_init \<le> x_state e \<Longrightarrow> x_state e \<in> hook_states"
  by (erule driving_cases) (simp_all add: hook_states_def States_defs)

lemma driving_settling: "driving e \<Longrightarrow> States_do \<le> x_state e \<Longrightarrow> x_state e \<in> settling_states"
  by (erule driving_cases) (simp_all add: settling_states_def States_defs)

text \<open>The body of the try block of both drivers.\<close>

lemma phases_init_will_do:
  assumes rh: "hook_runner rh" and d: "driving e"
  shows "\<exists>out e1. andThen (uu_executePhaseInit rh env)
                    (andThen (uu_executePhaseWill rh env) (uu_executePhaseDo rh env)) e
                  = Some (out, e1)
           \<and> driving e1 \<and> advance e e1 \<and> States_init \<le> x_state e1
           \<and> (\<forall>r. out = Return r \<longrightarrow> States_do \<le> x_state e1)
           \<and> n_onPhaseFinally e1 = n_onPhaseFinally e
           \<and> (invalid env \<longrightarrow> x_state e < States_will \<longrightarrow>
                 n_onPhaseDo e1 = n_onPhaseDo e \<and> x_state e1 \<noteq> States_did
                 \<and> x_state e1 \<noteq> States_do)"
proof -
  obtain o1 e1 where r1: "uu_executePhaseInit rh env e = Some (o1, e1)"
    and d1: "driving e1" and a1: "advance e e1" and l1: "States_init \<le> x_state e1"
    and w1: "x_state e1 < States_will \<or> States_will \<le> x_state e \<or> States_did \<le> x_state e1"
    and n1: "x_state e1 = States_did \<longrightarrow> x_state e = States_did"
    and c1: "n_onPhaseDo e1 = n_onPhaseDo e" "n_onPhaseFinally e1 = n_onPhaseFinally e"
    using init_phase [OF rh d, of env] by blast
  obtain o2 e2 where r2: "uu_executePhaseWill rh env e1 = Some (o2, e2)"
    and d2: "driving e2" and a2: "advance e1 e2" and l2: "States_will \<le> x_state e2"
    and n2: "x_state e2 = States_did \<longrightarrow> x_state e1 = States_did"
    and c2: "n_onPhaseDo e2 = n_onPhaseDo e1" "n_onPhaseFinally e2 = n_onPhaseFinally e1"
    and v2: "invalid env \<longrightarrow>
                 x_state e1 < States_will \<or> States_did \<le> x_state e1 \<longrightarrow>
                 States_did \<le> x_state e2 \<and> n_onPhaseWill e2 = n_onPhaseWill e1"
    using will_phase [OF rh d1 l1, of env] by blast
  obtain o3 e3 where r3: "uu_executePhaseDo rh env e2 = Some (o3, e3)"
    and d3: "driving e3" and a3: "advance e2 e3" and l3: "States_do \<le> x_state e3"
    and c3: "n_onPhaseFinally e3 = n_onPhaseFinally e2"
    and s3: "States_do \<le> x_state e2 \<longrightarrow> e3 = e2 \<and> o3 = Return RNull"
    using do_phase [OF rh d2 l2, of env] by blast
  have nd0: "x_state e < States_will \<Longrightarrow> x_state e \<noteq> States_did"
    by (simp add: States_defs)
  show ?thesis
  proof (cases o1)
    case (Raise x)
    have "x_state e < States_will \<Longrightarrow> x_state e1 \<noteq> States_do"
      using w1 by (auto simp: States_defs)
    then show ?thesis
      using Raise r1 d1 a1 l1 c1 n1 nd0 by (auto simp: andThen_def)
  next
    case R1: (Return q1)
    show ?thesis
    proof (cases o2)
      case (Raise x)
      have i2: "States_init \<le> x_state e2" using l2 by (simp add: States_defs)
      have val: "n_onPhaseDo e2 = n_onPhaseDo e \<and> x_state e2 \<noteq> States_did
                 \<and> x_state e2 \<noteq> States_do"
        if v: "invalid env" and lt: "x_state e < States_will"
      proof -
        have "x_state e1 < States_will \<or> States_did \<le> x_state e1"
          using w1 lt by auto
        then have "States_did \<le> x_state e2" using v2 v by blast
        then have "x_state e2 \<noteq> States_do" by (simp add: States_defs)
        then show ?thesis using c1 c2 n1 n2 nd0 [OF lt] by auto
      qed
      have run: "andThen (uu_executePhaseInit rh env)
                    (andThen (uu_executePhaseWill rh env) (uu_executePhaseDo rh env)) e
                  = Some (o2, e2)"
        using R1 Raise r1 r2 by (simp add: andThen_def)
      show ?thesis
        using run Raise d2 advance_trans [OF a1 a2] i2 c1 c2 val by auto
    next
      case R2: (Return q2)
      have i3: "States_init \<le> x_state e3" using l3 by (simp add: States_defs)
      have run: "andThen (uu_executePhaseInit rh env)
                    (andThen (uu_executePhaseWill rh env) (uu_executePhaseDo rh env)) e
                  = Some (o3, e3)"
        using R1 R2 r1 r2 r3 by (simp add: andThen_def)
      have a: "advance e e3" using advance_trans [OF advance_trans [OF a1 a2] a3] .
      have val: "n_onPhaseDo e3 = n_onPhaseDo e \<and> x_state e3 \<noteq> States_did
                 \<and> x_state e3 \<noteq> States_do"
        if v: "invalid env" and lt: "x_state e < States_will"
      proof -
        have "x_state e1 < States_will \<or> States_did \<le> x_state e1"
          using w1 lt by auto
        then have ge: "States_did \<le> x_state e2" using v2 v by blast
        then have "States_do \<le> x_state e2" by (simp add: States_defs)
        then have "e3 = e2" using s3 by simp
        moreover have "x_state e2 \<noteq> States_do" using ge by (simp add: States_defs)
        ultimately show ?thesis using c1 c2 n1 n2 nd0 [OF lt] by auto
      qed
      show ?thesis
        using run d3 a l3 i3 c1 c2 c3 val by auto
    qed
  qed
qed

text \<open>
  The finally phase entered with an outcome or in \<open>do\<close>, as the drivers enter it: it
  finishes the execution or is left by its \<^verbatim>\<open>TypeError\<close>; a rejection stays a rejection.
\<close>

lemma finally_entered:
  assumes rh: "hook_runner rh" and ss: "x_state e \<in> settling_states"
    and hc: "hooks_counted e" and pc: "promise_consistent e" and nf: "n_onPhaseFinally e = 0"
  shows "\<exists>out e1. uu_executePhaseFinally rh env e = Some (out, e1)
           \<and> (out = Return RVoid \<and> x_state e1 \<in> finished_states
                \<or> (\<exists>x. out = Raise x) \<and> warnEnabled env \<and> x_state e1 \<in> outcome_states)
           \<and> hooks_counted e1 \<and> promise_consistent e1 \<and> advance e e1
           \<and> n_onPhaseDo e1 = n_onPhaseDo e
           \<and> (x_state e = States_canceled \<or> x_state e = States_failed \<longrightarrow> isRejected e1)
           \<and> (x_state e = States_do \<or> x_state e = States_did \<longrightarrow> isDone e1)"
proof -
  obtain out e1 where r: "uu_executePhaseFinally rh env e = Some (out, e1)"
    and k: "out = Return RVoid
              \<and> x_state e1 = (if x_state e = States_do then States_did else x_state e)
                              OR States_finished
              \<and> x_state e1 \<in> finished_states
            \<or> (\<exists>x. out = Raise x) \<and> warnEnabled env
              \<and> x_state e1 = (if x_state e = States_do then States_did else x_state e)
              \<and> x_state e1 \<in> outcome_states"
    and h: "hooks_counted e \<longrightarrow> n_onPhaseFinally e = 0 \<longrightarrow> hooks_counted e1"
    and p: "promise_consistent e1" and a: "advance e e1"
    and c: "n_onPhaseDo e1 = n_onPhaseDo e"
    using finally_phase [OF rh ss pc, of env]
    by (elim exE conjE) (rule that, assumption+)
  have k1: "out = Return RVoid \<and> x_state e1 \<in> finished_states
            \<or> (\<exists>x. out = Raise x) \<and> warnEnabled env \<and> x_state e1 \<in> outcome_states"
    using k by blast
  have st: "x_state e1 = (if x_state e = States_do then States_did else x_state e)
              OR States_finished
            \<or> x_state e1 = (if x_state e = States_do then States_did else x_state e)"
    using k by blast
  have rej: "isRejected e1" if "x_state e = States_canceled \<or> x_state e = States_failed"
    using that st by (elim disjE) (simp_all add: bit_defs States_defs)
  have dn: "isDone e1" if "x_state e = States_do \<or> x_state e = States_did"
    using that st by (elim disjE) (simp_all add: bit_defs States_defs)
  show ?thesis using r k1 h hc nf p a c rej dn by blast
qed

lemma sync_action:
  assumes rh: "hook_runner rh" and d: "driving e"
  shows "\<exists>out e1. uu_executeSyncAction rh env e = Some (out, e1)
           \<and> (out = Return RVoid \<and> x_state e1 \<in> finished_states
                \<or> (\<exists>x. out = Raise x) \<and> warnEnabled env \<and> x_state e1 \<in> outcome_states)
           \<and> hooks_counted e1 \<and> promise_consistent e1 \<and> advance e e1
           \<and> (invalid env \<longrightarrow> x_state e < States_will \<longrightarrow>
                 n_onPhaseDo e1 = n_onPhaseDo e \<and> isRejected e1)"
proof -
  obtain out e1 where r1: "andThen (uu_executePhaseInit rh env)
                    (andThen (uu_executePhaseWill rh env) (uu_executePhaseDo rh env)) e
                  = Some (out, e1)"
    and d1: "driving e1" and a1: "advance e e1" and l1: "States_init \<le> x_state e1"
    and ok: "\<forall>r. out = Return r \<longrightarrow> States_do \<le> x_state e1"
    and v1: "invalid env \<longrightarrow> x_state e < States_will \<longrightarrow>
                 n_onPhaseDo e1 = n_onPhaseDo e \<and> x_state e1 \<noteq> States_did
                 \<and> x_state e1 \<noteq> States_do"
    using phases_init_will_do [OF rh d, of env] by blast
  have hc1: "hooks_counted e1" and pc1: "promise_consistent e1"
    and nf1: "n_onPhaseFinally e1 = 0"
    using d1 by (simp_all add: driving_def)
  obtain o2 e2 where r2: "tryCatch (andThen (uu_executePhaseInit rh env)
                    (andThen (uu_executePhaseWill rh env) (uu_executePhaseDo rh env)))
              (uu_rejectOrLog env) e = Some (o2, e2)"
    and s2: "x_state e2 \<in> settling_states" and hc2: "hooks_counted e2"
    and pc2: "promise_consistent e2" and a2: "advance e1 e2"
    and nf2: "n_onPhaseFinally e2 = 0" and c2: "n_onPhaseDo e2 = n_onPhaseDo e1"
    and n2: "x_state e1 \<noteq> States_did \<longrightarrow> x_state e2 \<noteq> States_did"
    and n3: "x_state e1 \<noteq> States_do \<longrightarrow> x_state e2 \<noteq> States_do"
    and w2: "(\<exists>x. o2 = Raise x) \<longrightarrow> warnEnabled env \<and> x_state e2 \<in> outcome_states"
  proof (cases out)
    case (Return r)
    have "tryCatch (andThen (uu_executePhaseInit rh env)
                    (andThen (uu_executePhaseWill rh env) (uu_executePhaseDo rh env)))
              (uu_rejectOrLog env) e = Some (Return r, e1)"
      using r1 Return by (simp add: tryCatch_def)
    then show ?thesis
      using that [of "Return r" e1] ok Return driving_settling [OF d1] hc1 pc1 nf1
      by (simp add: advance_refl)
  next
    case (Raise ex)
    obtain oq e2 where q: "uu_rejectOrLog env ex e1 = Some (oq, e2)"
      and q1: "x_state e2 \<in> settling_states" "x_state e2 \<in> outcome_states"
        "States_did \<le> x_state e2" "hooks_counted e2" "promise_consistent e2" "advance e1 e2"
        "n_onPhaseDo e2 = n_onPhaseDo e1" "n_onPhaseFinally e2 = n_onPhaseFinally e1"
        "x_state e1 \<noteq> States_did \<longrightarrow> x_state e2 \<noteq> States_did"
        "warnEnabled env \<or> oq = Return RVoid"
      using rejectOrLog_settles [OF driving_hook_state [OF d1 l1] hc1 pc1, of env ex] by blast
    have "tryCatch (andThen (uu_executePhaseInit rh env)
                    (andThen (uu_executePhaseWill rh env) (uu_executePhaseDo rh env)))
              (uu_rejectOrLog env) e = Some (oq, e2)"
      using r1 Raise q by (simp add: tryCatch_def)
    moreover have "x_state e2 \<noteq> States_do" using q1(3) by (simp add: States_defs)
    moreover have "(\<exists>x. oq = Raise x) \<longrightarrow> warnEnabled env" using q1(10) by auto
    ultimately show ?thesis
      using that [of oq e2] q1 nf1 by simp
  qed
  have a12: "advance e e2" using advance_trans [OF a1 a2] .
  have rj2: "x_state e2 = States_canceled \<or> x_state e2 = States_failed"
    if v: "invalid env" and lt: "x_state e < States_will"
  proof -
    have "x_state e2 \<noteq> States_did" "x_state e2 \<noteq> States_do"
      using v1 v lt n2 n3 by blast+
    then show ?thesis using s2 by (auto simp: settling_states_def)
  qed
  have cd: "invalid env \<longrightarrow> x_state e < States_will \<longrightarrow> n_onPhaseDo e2 = n_onPhaseDo e"
    using v1 c2 by simp
  show ?thesis
  proof (cases o2)
    case (Raise x)
    have run: "uu_executeSyncAction rh env e = Some (Raise x, e2)"
      using r2 Raise by (simp add: uu_executeSyncAction_def andThen_def)
    have "invalid env \<longrightarrow> x_state e < States_will \<longrightarrow> isRejected e2"
      using rj2 by (auto simp: bit_defs States_defs)
    then show ?thesis using run w2 Raise hc2 pc2 a12 cd by simp
  next
    case (Return r)
    obtain o3 e3 where r3: "uu_executePhaseFinally rh env e2 = Some (o3, e3)"
      and k3: "o3 = Return RVoid \<and> x_state e3 \<in> finished_states
                \<or> (\<exists>x. o3 = Raise x) \<and> warnEnabled env \<and> x_state e3 \<in> outcome_states"
      and p3: "hooks_counted e3" "promise_consistent e3" and a3: "advance e2 e3"
      and c3: "n_onPhaseDo e3 = n_onPhaseDo e2"
      and j3: "x_state e2 = States_canceled \<or> x_state e2 = States_failed \<longrightarrow> isRejected e3"
      using finally_entered [OF rh s2 hc2 pc2 nf2, of env] by blast
    have run: "uu_executeSyncAction rh env e = Some (o3, e3)"
      using r2 r3 Return by (simp add: uu_executeSyncAction_def andThen_def)
    have "invalid env \<longrightarrow> x_state e < States_will \<longrightarrow> isRejected e3"
      using rj2 j3 by blast
    then show ?thesis using run k3 p3 advance_trans [OF a12 a3] cd c3 by simp
  qed
qed

section \<open>Calls from outside: execute and executeWill\<close>

lemma wellformed_objects [simp]: "wellformed (e\<lparr>n_objects := k\<rparr>) = wellformed e"
  by (simp add: wellformed_def)

lemma wellformed_cases:
  assumes "wellformed e"
  obtains "x_state e = 1" "chain e = NoChain" "\<not> x_isInside e"
    | "x_state e = 4" "chain e = NoChain" "\<not> x_isInside e"
    | "x_state e = 8" "\<not> x_isInside e"
    | "x_state e = 16" | "x_state e = 32" | "x_state e = 64"
    | "x_state e = 144" "chain e = NoChain" "\<not> x_isInside e"
    | "x_state e = 160" "chain e = NoChain" "\<not> x_isInside e"
    | "x_state e = 192" "chain e = NoChain" "\<not> x_isInside e"
  using assms
  by (auto simp: wellformed_def idle_states_def finished_states_def settling_states_def
        outcome_states_def States_defs)

lemma settling_idle: "x_state e \<in> settling_states \<Longrightarrow> x_state e \<in> idle_states"
  by (auto simp: settling_states_def idle_states_def)

lemma outcome_idle: "x_state e \<in> outcome_states \<Longrightarrow> x_state e \<in> idle_states"
  by (auto simp: outcome_states_def idle_states_def)

lemma finished_idle: "x_state e \<in> finished_states \<Longrightarrow> x_state e \<in> idle_states"
  by (auto simp: idle_states_def)

lemma chain_of_not_NoChain: "chain_of r \<noteq> NoChain"
  by (simp add: chain_of_def)

text \<open>The catch handler of the drivers, entered while the phases are driven.\<close>

lemma catch_driving:
  assumes d: "driving e" and l: "States_init \<le> x_state e"
  shows "\<exists>out e1. uu_rejectOrLog env ex e = Some (out, e1) \<and> driving e1
           \<and> x_state e1 \<in> outcome_states \<and> advance e e1
           \<and> n_onPhaseDo e1 = n_onPhaseDo e
           \<and> (x_state e \<noteq> States_did \<longrightarrow> x_state e1 \<noteq> States_did)
           \<and> (warnEnabled env \<or> out = Return RVoid)"
proof -
  have hc: "hooks_counted e" and pc: "promise_consistent e" and ins: "x_isInside e"
    and nf: "n_onPhaseFinally e = 0"
    using d by (simp_all add: driving_def)
  obtain out e1 where q: "uu_rejectOrLog env ex e = Some (out, e1)"
    and q1: "x_state e1 \<in> outcome_states" "hooks_counted e1" "promise_consistent e1"
      "advance e e1" "n_onPhaseDo e1 = n_onPhaseDo e" "n_onPhaseFinally e1 = n_onPhaseFinally e"
      "x_state e \<noteq> States_did \<longrightarrow> x_state e1 \<noteq> States_did"
      "warnEnabled env \<or> out = Return RVoid"
    using rejectOrLog_settles [OF driving_hook_state [OF d l] hc pc, of env ex] by blast
  have "x_state e1 \<in> driving_states"
    using q1(1) by (auto simp: outcome_states_def driving_states_def)
  then have "driving e1"
    using q1 ins nf by (simp add: driving_def advance_def)
  then show ?thesis using q q1 by simp
qed

lemma async_action:
  assumes rh: "hook_runner rh" and d: "driving e"
  shows "\<exists>out e1. uu_executeAsyncAction rh env e = Some (out, e1)
           \<and> driving e1
           \<and> (out = Return RVoid \<and> x_state e1 \<in> settling_states \<and> chain e1 \<noteq> NoChain
                \<or> (\<exists>x. out = Raise x) \<and> warnEnabled env \<and> x_state e1 \<in> outcome_states
                   \<and> chain e1 = chain e)
           \<and> x_state e \<le> x_state e1 \<and> same_promise e e1
           \<and> (invalid env \<longrightarrow> x_state e < States_will \<longrightarrow>
                 n_onPhaseDo e1 = n_onPhaseDo e
                 \<and> x_state e1 \<in> {States_canceled, States_failed})"
proof -
  obtain out e1 where r1: "andThen (uu_executePhaseInit rh env)
                    (andThen (uu_executePhaseWill rh env) (uu_executePhaseDo rh env)) e
                  = Some (out, e1)"
    and d1: "driving e1" and a1: "advance e e1" and l1: "States_init \<le> x_state e1"
    and ok: "\<forall>r. out = Return r \<longrightarrow> States_do \<le> x_state e1"
    and v1: "invalid env \<longrightarrow> x_state e < States_will \<longrightarrow>
                 n_onPhaseDo e1 = n_onPhaseDo e \<and> x_state e1 \<noteq> States_did
                 \<and> x_state e1 \<noteq> States_do"
    using phases_init_will_do [OF rh d, of env] by blast
  show ?thesis
  proof (cases out)
    case (Return r)
    have s: "x_state e1 \<in> settling_states" using Return ok driving_settling [OF d1] by simp
    have val: "n_onPhaseDo e1 = n_onPhaseDo e \<and> x_state e1 \<in> {States_canceled, States_failed}"
      if "invalid env" and "x_state e < States_will"
      using v1 that s by (auto simp: settling_states_def)
    have dc: "driving (e1\<lparr>chain := chain_of r\<rparr>)" using d1 by (simp add: driving_def)
    show ?thesis
      using Return r1 s dc a1 chain_of_not_NoChain [of r] val
      by (simp add: uu_executeAsyncAction_def advance_def)
  next
    case (Raise ex)
    obtain o2 e2 where q: "uu_rejectOrLog env ex e1 = Some (o2, e2)"
      and d2: "driving e2" and s2: "x_state e2 \<in> outcome_states" and a2: "advance e1 e2"
      and c2: "n_onPhaseDo e2 = n_onPhaseDo e1"
      and n2: "x_state e1 \<noteq> States_did \<longrightarrow> x_state e2 \<noteq> States_did"
      and w2: "warnEnabled env \<or> o2 = Return RVoid"
      using catch_driving [OF d1 l1, of env ex] by blast
    have a: "advance e e2" using advance_trans [OF a1 a2] .
    have val: "n_onPhaseDo e2 = n_onPhaseDo e \<and> x_state e2 \<in> {States_canceled, States_failed}"
      if "invalid env" and "x_state e < States_will"
      using v1 that s2 n2 c2 by (auto simp: outcome_states_def)
    have ss: "x_state e2 \<in> settling_states"
      using s2 by (auto simp: outcome_states_def settling_states_def)
    show ?thesis
    proof (cases o2)
      case (Return q2)
      have dc: "driving (e2\<lparr>chain := FinallyReady\<rparr>)" using d2 by (simp add: driving_def)
      show ?thesis
        using Raise Return r1 q ss dc a val
        by (simp add: uu_executeAsyncAction_def advance_def)
    next
      case R2: (Raise x)
      have "warnEnabled env" using w2 R2 by simp
      then show ?thesis
        using Raise R2 r1 q s2 d2 a val
        by (simp add: uu_executeAsyncAction_def advance_def)
    qed
  qed
qed

lemma hooks_counted_no_finally:
  "hooks_counted e \<Longrightarrow> x_state e < States_did \<Longrightarrow> n_onPhaseFinally e = 0"
  by (simp add: hooks_counted_def)

lemma driving_inside:
  assumes w: "wellformed e" and le: "x_state e \<le> States_will"
  shows "driving (e\<lparr>x_isInside := True\<rparr>)" and "chain e = NoChain" and "\<not> x_isInside e"
proof -
  have st: "x_state e = 1 \<or> x_state e = 4"
    using w le by (cases rule: wellformed_cases) (simp_all add: States_defs)
  have nc: "chain e = NoChain"
    using w le by (cases rule: wellformed_cases) (simp_all add: States_defs)
  have ni: "\<not> x_isInside e"
    using w le by (cases rule: wellformed_cases) (simp_all add: States_defs)
  have hc: "hooks_counted e" and pc: "promise_consistent e"
    using w by (simp_all add: wellformed_def)
  have lt: "x_state e < States_did" using le by (simp add: States_defs)
  have nf: "n_onPhaseFinally e = 0" using hooks_counted_no_finally [OF hc lt] .
  have ds: "x_state e \<in> driving_states"
    using st by (elim disjE) (simp_all add: driving_states_def States_defs)
  show "driving (e\<lparr>x_isInside := True\<rparr>)"
    using hc pc nf ds by (simp add: driving_def)
  show "chain e = NoChain" by (rule nc)
  show "\<not> x_isInside e" by (rule ni)
qed

lemma rejected_rejecting:
  assumes "isRejected e" and "x_state e \<in> finished_states \<or> x_state e \<in> outcome_states"
  shows "x_state e \<in> rejecting_states"
  using assms(2,1)
  by (elim disjE)
     (auto simp: rejecting_states_def finished_states_def outcome_states_def bit_defs States_defs)

lemma lt_will_rejecting:
  "x_state e \<in> rejecting_states \<Longrightarrow> x_state e \<le> States_will \<Longrightarrow> x_state e < States_will"
  by (auto simp: rejecting_states_def States_defs)

lemma wellformed_stuck:
  assumes "x_state e \<in> outcome_states" and "chain e = NoChain" and "hooks_counted e"
    and "promise_consistent e"
  shows "wellformed e"
  using assms outcome_idle [OF assms(1)] by (simp add: wellformed_def)

lemma wellformed_left:
  assumes "x_state e \<in> idle_states" and "chain e = NoChain" and "hooks_counted e"
    and "promise_consistent e"
  shows "wellformed (e\<lparr>x_isInside := False\<rparr>)"
  using assms by (simp add: wellformed_def)

lemma execute_idle:
  assumes rh: "hook_runner rh" and w: "wellformed e"
  shows "\<exists>out e1. execute rh env e = Some (out, e1) \<and> wellformed e1
           \<and> x_state e \<le> x_state e1 \<and> same_promise e e1
           \<and> (invalid env \<longrightarrow> x_state e \<in> rejecting_states \<longrightarrow>
                 n_onPhaseDo e1 = n_onPhaseDo e \<and> x_state e1 \<in> rejecting_states)"
proof (cases "x_state e > States_will")
  case True
  then show ?thesis
    using w by (simp add: execute_def throw_new_def same_promise_def)
next
  case False
  then have le: "x_state e \<le> States_will" by simp
  define e0 where "e0 = e\<lparr>x_isInside := True\<rparr>"
  have d0: "driving e0" and nc: "chain e = NoChain" and ni: "\<not> x_isInside e"
    using driving_inside [OF w le] by (simp_all add: e0_def)
  have lt: "x_state e0 < States_will" if "x_state e \<in> rejecting_states"
    using lt_will_rejecting [OF that le] by (simp add: e0_def)
  show ?thesis
  proof (cases "isSync env")
    case True
    obtain out e1 where r: "uu_executeSyncAction rh env e0 = Some (out, e1)"
      and k: "out = Return RVoid \<and> x_state e1 \<in> finished_states
                \<or> (\<exists>x. out = Raise x) \<and> warnEnabled env \<and> x_state e1 \<in> outcome_states"
      and hc: "hooks_counted e1" and pc: "promise_consistent e1" and a: "advance e0 e1"
      and v1: "invalid env \<longrightarrow> x_state e0 < States_will \<longrightarrow>
                 n_onPhaseDo e1 = n_onPhaseDo e0 \<and> isRejected e1"
      using sync_action [OF rh d0, of env] by blast
    have fo: "x_state e1 \<in> finished_states \<or> x_state e1 \<in> outcome_states" using k by blast
    have nc1: "chain e1 = NoChain" using a nc by (simp add: advance_def e0_def)
    have le1: "x_state e \<le> x_state e1" and sp: "same_promise e e1"
      using a by (simp_all add: advance_def e0_def)
    have val: "n_onPhaseDo e1 = n_onPhaseDo e \<and> x_state e1 \<in> rejecting_states"
      if v: "invalid env" and rs: "x_state e \<in> rejecting_states"
    proof -
      have "n_onPhaseDo e1 = n_onPhaseDo e0" "isRejected e1" using v1 v lt [OF rs] by blast+
      then show ?thesis using rejected_rejecting [OF _ fo] by (simp add: e0_def)
    qed
    from k show ?thesis
    proof (elim disjE conjE exE)
      assume o: "out = Return RVoid" and f: "x_state e1 \<in> finished_states"
      have run: "execute rh env e = Some (Return RThis, e1\<lparr>x_isInside := False\<rparr>)"
        using False True ni r o
        by (simp add: execute_def uu_callInside_def andThen_def returns_def e0_def)
      show ?thesis
        using run wellformed_left [OF finished_idle [OF f] nc1 hc pc] le1 sp val by simp
    next
      fix x assume o: "out = Raise x" and s: "x_state e1 \<in> outcome_states"
      have run: "execute rh env e = Some (Raise x, e1)"
        using False True ni r o
        by (simp add: execute_def uu_callInside_def andThen_def returns_def e0_def)
      show ?thesis
        using run wellformed_stuck [OF s nc1 hc pc] le1 sp val by simp
    qed
  next
    case False
    obtain out e1 where r: "uu_executeAsyncAction rh env e0 = Some (out, e1)"
      and d1: "driving e1"
      and k: "out = Return RVoid \<and> x_state e1 \<in> settling_states \<and> chain e1 \<noteq> NoChain
                \<or> (\<exists>x. out = Raise x) \<and> warnEnabled env \<and> x_state e1 \<in> outcome_states
                   \<and> chain e1 = chain e0"
      and le1: "x_state e0 \<le> x_state e1" and sp: "same_promise e0 e1"
      and v1: "invalid env \<longrightarrow> x_state e0 < States_will \<longrightarrow>
                 n_onPhaseDo e1 = n_onPhaseDo e0
                 \<and> x_state e1 \<in> {States_canceled, States_failed}"
      using async_action [OF rh d0, of env] by blast
    have hc: "hooks_counted e1" and pc: "promise_consistent e1"
      and nf: "n_onPhaseFinally e1 = 0"
      using d1 by (simp_all add: driving_def)
    have val: "n_onPhaseDo e1 = n_onPhaseDo e \<and> x_state e1 \<in> rejecting_states"
      if v: "invalid env" and rs: "x_state e \<in> rejecting_states"
      using v1 v lt [OF rs] by (auto simp: e0_def rejecting_states_def)
    from k show ?thesis
    proof (elim disjE conjE exE)
      assume o: "out = Return RVoid" and s: "x_state e1 \<in> settling_states"
      have run: "execute rh env e = Some (Return RThis, e1\<lparr>x_isInside := False\<rparr>)"
        using \<open>\<not> States_will < x_state e\<close> False ni r o
        by (simp add: execute_def uu_callInside_def andThen_def returns_def e0_def)
      have "wellformed (e1\<lparr>x_isInside := False\<rparr>)"
        using settling_idle [OF s] s hc pc nf by (simp add: wellformed_def)
      then show ?thesis
        using run le1 sp val by (simp add: e0_def)
    next
      fix x assume o: "out = Raise x" and s: "x_state e1 \<in> outcome_states"
        and c: "chain e1 = chain e0"
      have run: "execute rh env e = Some (Raise x, e1)"
        using \<open>\<not> States_will < x_state e\<close> False ni r o
        by (simp add: execute_def uu_callInside_def andThen_def returns_def e0_def)
      have nc1: "chain e1 = NoChain" using c nc by (simp add: e0_def)
      show ?thesis
        using run wellformed_stuck [OF s nc1 hc pc] le1 sp val by (simp add: e0_def)
    qed
  qed
qed

lemma driving_idle: "driving e \<Longrightarrow> States_will \<le> x_state e \<Longrightarrow> x_state e \<in> idle_states"
  by (erule driving_cases) (simp_all add: idle_states_def States_defs)

lemma driving_rejected:
  "driving e \<Longrightarrow> States_did \<le> x_state e \<Longrightarrow> x_state e \<noteq> States_did
     \<Longrightarrow> x_state e \<in> {States_canceled, States_failed}"
  by (erule driving_cases) (simp_all add: States_defs)

text \<open>The body of the try block of \<^verbatim>\<open>executeWill\<close>.\<close>

lemma phases_init_will:
  assumes rh: "hook_runner rh" and d: "driving e"
  shows "\<exists>out e1. andThen (uu_executePhaseInit rh env) (uu_executePhaseWill rh env) e
                  = Some (out, e1)
           \<and> driving e1 \<and> advance e e1 \<and> States_init \<le> x_state e1
           \<and> (\<forall>r. out = Return r \<longrightarrow> States_will \<le> x_state e1)
           \<and> n_onPhaseDo e1 = n_onPhaseDo e
           \<and> (x_state e < States_will \<longrightarrow> x_state e1 \<noteq> States_did)
           \<and> (invalid env \<longrightarrow> x_state e < States_will \<longrightarrow>
                 (\<forall>r. out = Return r \<longrightarrow> States_did \<le> x_state e1))"
proof -
  obtain o1 e1 where r1: "uu_executePhaseInit rh env e = Some (o1, e1)"
    and d1: "driving e1" and a1: "advance e e1" and l1: "States_init \<le> x_state e1"
    and w1: "x_state e1 < States_will \<or> States_will \<le> x_state e \<or> States_did \<le> x_state e1"
    and n1: "x_state e1 = States_did \<longrightarrow> x_state e = States_did"
    and c1: "n_onPhaseDo e1 = n_onPhaseDo e"
    using init_phase [OF rh d, of env] by blast
  obtain o2 e2 where r2: "uu_executePhaseWill rh env e1 = Some (o2, e2)"
    and d2: "driving e2" and a2: "advance e1 e2" and l2: "States_will \<le> x_state e2"
    and n2: "x_state e2 = States_did \<longrightarrow> x_state e1 = States_did"
    and c2: "n_onPhaseDo e2 = n_onPhaseDo e1"
    and v2: "invalid env \<longrightarrow>
                 x_state e1 < States_will \<or> States_did \<le> x_state e1 \<longrightarrow>
                 States_did \<le> x_state e2 \<and> n_onPhaseWill e2 = n_onPhaseWill e1"
    using will_phase [OF rh d1 l1, of env] by blast
  have nd0: "x_state e < States_will \<Longrightarrow> x_state e \<noteq> States_did"
    by (simp add: States_defs)
  show ?thesis
  proof (cases o1)
    case (Raise x)
    have "andThen (uu_executePhaseInit rh env) (uu_executePhaseWill rh env) e
            = Some (Raise x, e1)"
      using Raise r1 by (simp add: andThen_def)
    then show ?thesis using d1 a1 l1 c1 n1 nd0 by auto
  next
    case (Return q)
    have run: "andThen (uu_executePhaseInit rh env) (uu_executePhaseWill rh env) e
            = Some (o2, e2)"
      using Return r1 r2 by (simp add: andThen_def)
    have i2: "States_init \<le> x_state e2" using l2 by (simp add: States_defs)
    have nd: "x_state e < States_will \<longrightarrow> x_state e2 \<noteq> States_did"
      using n1 n2 nd0 by blast
    have ge: "invalid env \<longrightarrow> x_state e < States_will \<longrightarrow> States_did \<le> x_state e2"
    proof (intro impI)
      assume v: "invalid env" and lt: "x_state e < States_will"
      have "x_state e1 < States_will \<or> States_did \<le> x_state e1" using w1 lt by auto
      then show "States_did \<le> x_state e2" using v2 v by blast
    qed
    have c: "n_onPhaseDo e2 = n_onPhaseDo e" using c1 c2 by simp
    show ?thesis
      using run d2 advance_trans [OF a1 a2] i2 l2 c nd ge by simp
  qed
qed

lemma executeWill_idle:
  assumes rh: "hook_runner rh" and w: "wellformed e"
  shows "\<exists>out e1. executeWill rh env e = Some (out, e1) \<and> wellformed e1
           \<and> x_state e \<le> x_state e1 \<and> same_promise e e1
           \<and> n_onPhaseDo e1 = n_onPhaseDo e
           \<and> n_onPhaseFinally e1 = n_onPhaseFinally e
           \<and> (out = Return RThis
                \<or> (\<exists>x. out = Raise x) \<and> (States_will < x_state e \<or> warnEnabled env))
           \<and> (invalid env \<longrightarrow> x_state e < States_will \<longrightarrow>
                 x_state e1 \<in> {States_canceled, States_failed})"
proof (cases "x_state e > States_will")
  case True
  then show ?thesis
    using w by (simp add: executeWill_def throw_new_def same_promise_def)
next
  case False
  then have le: "x_state e \<le> States_will" by simp
  define e0 where "e0 = e\<lparr>x_isInside := True\<rparr>"
  have d0: "driving e0" and nc: "chain e = NoChain" and ni: "\<not> x_isInside e"
    using driving_inside [OF w le] by (simp_all add: e0_def)
  have z0: "n_onPhaseFinally e = 0" using d0 by (simp add: driving_def e0_def)
  obtain out e1 where r1: "andThen (uu_executePhaseInit rh env) (uu_executePhaseWill rh env) e0
                  = Some (out, e1)"
    and d1: "driving e1" and a1: "advance e0 e1" and l1: "States_init \<le> x_state e1"
    and ok: "\<forall>r. out = Return r \<longrightarrow> States_will \<le> x_state e1"
    and c1: "n_onPhaseDo e1 = n_onPhaseDo e0"
    and n1: "x_state e0 < States_will \<longrightarrow> x_state e1 \<noteq> States_did"
    and v1: "invalid env \<longrightarrow> x_state e0 < States_will \<longrightarrow>
                 (\<forall>r. out = Return r \<longrightarrow> States_did \<le> x_state e1)"
    using phases_init_will [OF rh d0, of env] by blast
  show ?thesis
  proof (cases out)
    case (Return q)
    have run: "executeWill rh env e = Some (Return RThis, e1\<lparr>x_isInside := False\<rparr>)"
      using False ni r1 Return
      by (simp add: executeWill_def uu_callInside_def andThen_def returns_def tryCatch_def
            e0_def)
    have hc: "hooks_counted e1" and pc: "promise_consistent e1" and z: "n_onPhaseFinally e1 = 0"
      using d1 by (simp_all add: driving_def)
    have nc1: "chain e1 = NoChain" using a1 nc by (simp add: advance_def e0_def)
    have idle: "x_state e1 \<in> idle_states" using driving_idle [OF d1] ok Return by simp
    have rj: "invalid env \<longrightarrow> x_state e < States_will \<longrightarrow>
                 x_state e1 \<in> {States_canceled, States_failed}"
      using v1 n1 Return driving_rejected [OF d1] by (simp add: e0_def)
    show ?thesis
      using run wellformed_left [OF idle nc1 hc pc] a1 c1 z z0 rj
      by (simp add: advance_def e0_def)
  next
    case (Raise ex)
    obtain o2 e2 where q: "uu_rejectOrLog env ex e1 = Some (o2, e2)"
      and d2: "driving e2" and s2: "x_state e2 \<in> outcome_states" and a2: "advance e1 e2"
      and c2: "n_onPhaseDo e2 = n_onPhaseDo e1"
      and n2: "x_state e1 \<noteq> States_did \<longrightarrow> x_state e2 \<noteq> States_did"
      and w2: "warnEnabled env \<or> o2 = Return RVoid"
      using catch_driving [OF d1 l1, of env ex] by blast
    have a: "advance e0 e2" using advance_trans [OF a1 a2] .
    have hc: "hooks_counted e2" and pc: "promise_consistent e2" and z: "n_onPhaseFinally e2 = 0"
      using d2 by (simp_all add: driving_def)
    have nc2: "chain e2 = NoChain" using a nc by (simp add: advance_def e0_def)
    have rj: "x_state e < States_will \<longrightarrow> x_state e2 \<in> {States_canceled, States_failed}"
      using n1 n2 s2 by (auto simp: e0_def outcome_states_def)
    have t: "tryCatch (andThen (uu_executePhaseInit rh env) (uu_executePhaseWill rh env))
               (uu_rejectOrLog env) e0 = Some (o2, e2)"
      using r1 Raise q by (simp add: tryCatch_def)
    show ?thesis
    proof (cases o2)
      case (Return q2)
      have run: "executeWill rh env e = Some (Return RThis, e2\<lparr>x_isInside := False\<rparr>)"
        using False ni t Return
        by (simp add: executeWill_def uu_callInside_def andThen_def returns_def e0_def)
      show ?thesis
        using run wellformed_left [OF outcome_idle [OF s2] nc2 hc pc] a c1 c2 z z0 rj
        by (simp add: advance_def e0_def)
    next
      case R2: (Raise x)
      have run: "executeWill rh env e = Some (Raise x, e2)"
        using False ni t R2
        by (simp add: executeWill_def uu_callInside_def andThen_def returns_def e0_def)
      have we: "warnEnabled env" using w2 R2 by simp
      show ?thesis
        using run wellformed_stuck [OF s2 nc2 hc pc] a c1 c2 z z0 rj we
        by (simp add: advance_def e0_def)
    qed
  qed
qed

section \<open>Calls from outside: reject, done and the promise\<close>

text \<open>
  \<^verbatim>\<open>reject\<close> on an unstarted execution rejects it and runs the finally phase, which
  finishes it or is left by its \<^verbatim>\<open>TypeError\<close>.
\<close>

lemma reject_unstarted:
  assumes rh: "hook_runner rh" and st: "x_state e = States_unstarted"
    and hc: "hooks_counted e" and pc: "promise_consistent e"
  shows "\<exists>out e1. reject rh env r e = Some (out, e1)
           \<and> (out = Return RThis \<and> x_state e1 = x_state (uu_reject r e) OR States_finished
                \<and> x_state e1 \<in> finished_states
              \<or> (\<exists>x. out = Raise x) \<and> warnEnabled env
                \<and> x_state e1 = x_state (uu_reject r e) \<and> x_state e1 \<in> outcome_states)
           \<and> x_error e1 = x_error (uu_reject r e) \<and> isRejected e1
           \<and> hooks_counted e1 \<and> promise_consistent e1 \<and> advance e e1
           \<and> n_onPhaseInit e1 = n_onPhaseInit e \<and> n_onPhaseWill e1 = n_onPhaseWill e
           \<and> n_onPhaseDo e1 = n_onPhaseDo e
           \<and> n_onPhaseFinally e1 = Suc (n_onPhaseFinally e)"
proof -
  define e2 where "e2 = uu_reject r e"
  have lt: "x_state e < States_did" using st by (simp add: States_defs)
  have nf: "\<not> isFinished e" using st by (simp add: isFinished_def States_defs)
  have s2: "x_state e2 = States_canceled \<or> x_state e2 = States_failed"
    using uu_reject_state [of r e] by (simp add: e2_def)
  then have ss: "x_state e2 \<in> settling_states" by (auto simp: settling_states_def)
  have nd: "x_state e2 \<noteq> States_do" using s2 by (auto simp: States_defs)
  have hc2: "hooks_counted e2" using uu_reject_counted [OF hc lt] by (simp add: e2_def)
  have z2: "n_onPhaseFinally e2 = 0"
    using hooks_counted_no_finally [OF hc lt] by (simp add: e2_def uu_reject_fields)
  have pc2: "promise_consistent e2" using uu_reject_promise [OF pc nf] by (simp add: e2_def)
  obtain o3 e3 where r3: "uu_executePhaseFinally rh env e2 = Some (o3, e3)"
    and k3: "o3 = Return RVoid
              \<and> x_state e3 = (if x_state e2 = States_do then States_did else x_state e2)
                              OR States_finished
              \<and> x_state e3 \<in> finished_states
            \<or> (\<exists>x. o3 = Raise x) \<and> warnEnabled env
              \<and> x_state e3 = (if x_state e2 = States_do then States_did else x_state e2)
              \<and> x_state e3 \<in> outcome_states"
    and er: "x_error e3 = x_error e2"
    and h3: "hooks_counted e2 \<longrightarrow> n_onPhaseFinally e2 = 0 \<longrightarrow> hooks_counted e3"
    and pc3: "promise_consistent e3" and a3: "advance e2 e3"
    and c3: "n_onPhaseInit e3 = n_onPhaseInit e2" "n_onPhaseWill e3 = n_onPhaseWill e2"
      "n_onPhaseDo e3 = n_onPhaseDo e2" "n_onPhaseFinally e3 = Suc (n_onPhaseFinally e2)"
    using finally_phase [OF rh ss pc2, of env]
    by (elim exE conjE) (rule that, assumption+)
  have hc3: "hooks_counted e3" using h3 hc2 z2 by simp
  have run: "reject rh env r e = Some (case o3 of Return q \<Rightarrow> Return RThis | Raise x \<Rightarrow> Raise x, e3)"
    using st r3
    by (cases o3)
       (simp_all add: reject_def andThen_def uu_assertStates_def bit_defs States_defs Let_def
          returns_def e2_def)
  have k: "(case o3 of Return q \<Rightarrow> Return RThis | Raise x \<Rightarrow> Raise x) = Return RThis
              \<and> x_state e3 = x_state e2 OR States_finished \<and> x_state e3 \<in> finished_states
            \<or> (\<exists>x. (case o3 of Return q \<Rightarrow> Return RThis | Raise x \<Rightarrow> Raise x) = Raise x)
              \<and> warnEnabled env \<and> x_state e3 = x_state e2 \<and> x_state e3 \<in> outcome_states"
    using k3 nd by (elim disjE conjE exE) simp_all
  have "x_state e3 = x_state e2 OR States_finished \<or> x_state e3 = x_state e2"
    using k by blast
  then have rj: "isRejected e3"
    using s2 by (elim disjE) (simp_all add: bit_defs States_defs)
  have a: "advance e e3"
    using advance_trans [OF uu_reject_advance [OF lt, of r] _] a3 by (simp add: e2_def)
  have cn: "n_onPhaseInit e3 = n_onPhaseInit e" "n_onPhaseWill e3 = n_onPhaseWill e"
    "n_onPhaseDo e3 = n_onPhaseDo e" "n_onPhaseFinally e3 = Suc (n_onPhaseFinally e)"
    using c3 by (simp_all add: e2_def uu_reject_fields)
  have er': "x_error e3 = x_error (uu_reject r e)" using er by (simp add: e2_def)
  show ?thesis
    using run k [unfolded e2_def] er' rj hc3 pc3 a cn by blast
qed

lemma wellformed_after_reject:
  assumes w: "wellformed e" and st: "x_state e = 4 \<or> x_state e = 8"
  shows "wellformed (uu_reject r e)"
proof -
  have lt: "x_state e < States_did" using st by (auto simp: States_defs)
  have nf: "\<not> isFinished e" using st by (auto simp: isFinished_def States_defs)
  have hc: "hooks_counted e" and pc: "promise_consistent e"
    using w by (simp_all add: wellformed_def)
  have ni: "\<not> x_isInside e"
    using w st by (cases rule: wellformed_cases) simp_all
  have z: "n_onPhaseFinally e = 0" using hooks_counted_no_finally [OF hc lt] .
  have "x_state (uu_reject r e) \<in> settling_states"
    using uu_reject_state [of r e] by (auto simp: settling_states_def)
  then show ?thesis
    using uu_reject_counted [OF hc lt] uu_reject_promise [OF pc nf] ni z settling_idle
    by (simp add: wellformed_def uu_reject_fields)
qed

lemma advance_state: "advance e e1 \<Longrightarrow> x_state e \<le> x_state e1"
  by (simp add: advance_def)

lemma advance_promise: "advance e e1 \<Longrightarrow> same_promise e e1"
  by (simp add: advance_def)

lemma reject_idle:
  assumes rh: "hook_runner rh" and w: "wellformed e"
  shows "\<exists>out e1. reject rh env r e = Some (out, e1) \<and> wellformed e1
           \<and> x_state e \<le> x_state e1 \<and> same_promise e e1
           \<and> (x_state e \<in> rejecting_states \<longrightarrow>
                 n_onPhaseDo e1 = n_onPhaseDo e \<and> x_state e1 \<in> rejecting_states)"
proof -
  have hc: "hooks_counted e" and pc: "promise_consistent e"
    using w by (simp_all add: wellformed_def)
  have thr: "x_state e AND executingUnsettledStates = 0 \<Longrightarrow> ?thesis"
    using w by (simp add: reject_def andThen_def uu_assertStates_def throw_new_def)
  have rej: "x_state e = 4 \<or> x_state e = 8 \<Longrightarrow> ?thesis"
  proof -
    assume st: "x_state e = 4 \<or> x_state e = 8"
    have run: "reject rh env r e = Some (Return RThis, uu_reject r e)"
      using st by (auto simp: reject_def andThen_def uu_assertStates_def bit_defs States_defs)
    have "x_state e \<le> x_state (uu_reject r e)"
      using st uu_reject_state [of r e] by (auto simp: States_defs)
    moreover have "x_state e \<notin> rejecting_states"
      using st by (auto simp: rejecting_states_def States_defs)
    ultimately show ?thesis
      using run wellformed_after_reject [OF w st]
      by (simp add: same_promise_def uu_reject_fields)
  qed
  show ?thesis
    using w
  proof (cases rule: wellformed_cases)
    case 1
    then have st: "x_state e = States_unstarted" by (simp add: States_defs)
    obtain out e1 where r1: "reject rh env r e = Some (out, e1)"
      and k: "out = Return RThis \<and> x_state e1 = x_state (uu_reject r e) OR States_finished
                \<and> x_state e1 \<in> finished_states
              \<or> (\<exists>x. out = Raise x) \<and> warnEnabled env
                \<and> x_state e1 = x_state (uu_reject r e) \<and> x_state e1 \<in> outcome_states"
      and rj: "isRejected e1"
      and hc1: "hooks_counted e1" and pc1: "promise_consistent e1" and a: "advance e e1"
      and c: "n_onPhaseDo e1 = n_onPhaseDo e"
      using reject_unstarted [OF rh st hc pc, of env r]
      by (elim exE conjE) (rule that, assumption+)
    have fo: "x_state e1 \<in> finished_states \<or> x_state e1 \<in> outcome_states" using k by blast
    have idle: "x_state e1 \<in> idle_states"
      using fo finished_idle outcome_idle by blast
    have nc1: "chain e1 = NoChain" and ni1: "\<not> x_isInside e1"
      using a 1 by (simp_all add: advance_def)
    have w1: "wellformed e1"
      using idle nc1 ni1 hc1 pc1 by (simp add: wellformed_def)
    show ?thesis
      using r1 w1 c advance_state [OF a] advance_promise [OF a] rejected_rejecting [OF rj fo]
      by simp
  next
    case 2 then show ?thesis using rej by simp
  next
    case 3 then show ?thesis using rej by simp
  next
    case 4 then show ?thesis using thr by (simp add: bit_defs States_defs same_promise_refl)
  next
    case 5 then show ?thesis using thr by (simp add: bit_defs States_defs same_promise_refl)
  next
    case 6 then show ?thesis using thr by (simp add: bit_defs States_defs same_promise_refl)
  next
    case 7 then show ?thesis using thr by (simp add: bit_defs States_defs same_promise_refl)
  next
    case 8 then show ?thesis using thr by (simp add: bit_defs States_defs same_promise_refl)
  next
    case 9 then show ?thesis using thr by (simp add: bit_defs States_defs same_promise_refl)
  qed
qed

lemma done_idle:
  assumes w: "wellformed e"
  shows "\<exists>out e1. done_method v e = Some (out, e1) \<and> wellformed e1
           \<and> x_state e \<le> x_state e1 \<and> same_promise e e1
           \<and> (x_state e \<in> rejecting_states \<longrightarrow>
                 n_onPhaseDo e1 = n_onPhaseDo e \<and> x_state e1 \<in> rejecting_states)"
proof (cases "x_state e = 8")
  case True
  have "wellformed (e\<lparr>x_result := v, x_state := States_did\<rparr>)"
    using w True
    by (simp add: wellformed_def idle_states_def settling_states_def outcome_states_def
          finished_states_def hooks_counted_def promise_consistent_def isFinished_def
          States_defs)
  moreover have "x_state e \<notin> rejecting_states"
    using True by (simp add: rejecting_states_def States_defs)
  ultimately show ?thesis
    using True
    by (simp add: done_method_def andThen_def uu_assertStates_def same_promise_def States_defs)
next
  case False
  have "x_state e AND States_do = 0"
    using w False by (cases rule: wellformed_cases) (simp_all add: States_defs)
  then show ?thesis
    using w
    by (simp add: done_method_def andThen_def uu_assertStates_def throw_new_def same_promise_refl)
qed

lemma get_promise_idle:
  assumes w: "wellformed e"
  shows "\<exists>out e1. get_promise e = Some (out, e1) \<and> wellformed e1
           \<and> x_state e \<le> x_state e1 \<and> same_promise e e1
           \<and> (x_state e \<in> rejecting_states \<longrightarrow>
                 n_onPhaseDo e1 = n_onPhaseDo e \<and> x_state e1 \<in> rejecting_states)"
proof (cases "x_promiseControl e")
  case (Some pc)
  then show ?thesis
    using w by (simp add: get_promise_def uu_getPromiseControl_def same_promise_refl)
next
  case None
  then show ?thesis
    using w
    by (simp add: get_promise_def uu_getPromiseControl_def uu_createPromiseControl_def Let_def
          wellformed_def hooks_counted_def promise_consistent_def same_promise_def
          isFinished_def isDone_def)
qed

lemma perform_idle:
  assumes rh: "hook_runner rh" and w: "wellformed e"
  shows "\<exists>out e1. perform rh env c e = Some (out, e1) \<and> wellformed e1
           \<and> x_state e \<le> x_state e1 \<and> same_promise e e1
           \<and> (invalid env \<longrightarrow> x_state e \<in> rejecting_states \<longrightarrow>
                 n_onPhaseDo e1 = n_onPhaseDo e \<and> x_state e1 \<in> rejecting_states)"
proof (cases c)
  case (Done v)
  then show ?thesis using done_idle [OF w, of "User v"] by (auto simp: perform_def)
next
  case (Reject v)
  then show ?thesis using reject_idle [OF rh w, of env "User v"] by (auto simp: perform_def)
next
  case Execute
  then show ?thesis using execute_idle [OF rh w, of env] by (auto simp: perform_def)
next
  case ExecuteWill
  have r: "x_state e \<in> rejecting_states \<Longrightarrow> x_state e \<le> States_will \<Longrightarrow> x_state e < States_will"
    by (auto simp: rejecting_states_def States_defs)
  have t: "x_state e \<in> rejecting_states \<Longrightarrow> States_will < x_state e \<Longrightarrow>
      executeWill rh env e = Some (out, e1) \<Longrightarrow> x_state e1 = x_state e" for out e1
    by (auto simp: executeWill_def throw_new_def)
  obtain out e1 where r1: "executeWill rh env e = Some (out, e1)" and w1: "wellformed e1"
    and l1: "x_state e \<le> x_state e1" and p1: "same_promise e e1"
    and c1: "n_onPhaseDo e1 = n_onPhaseDo e"
    and v1: "invalid env \<longrightarrow> x_state e < States_will \<longrightarrow>
                 x_state e1 \<in> {States_canceled, States_failed}"
    using executeWill_idle [OF rh w, of env] by blast
  have "x_state e1 \<in> rejecting_states" if "invalid env" and rs: "x_state e \<in> rejecting_states"
  proof (cases "States_will < x_state e")
    case True
    then show ?thesis using t [OF rs True r1] rs by simp
  next
    case False
    then have "x_state e < States_will" using r [OF rs] by simp
    then show ?thesis using v1 that(1) by (auto simp: rejecting_states_def)
  qed
  then show ?thesis using ExecuteWill r1 w1 l1 p1 c1 by (auto simp: perform_def)
next
  case GetPromise
  then show ?thesis using get_promise_idle [OF w] by (auto simp: perform_def)
qed

section \<open>Events and reachable executions\<close>

lemma settling_in_hook: "x_state e \<in> settling_states \<Longrightarrow> in_hook e"
  by (auto simp: settling_states_def in_hook_def hook_states_def States_defs)

lemma settling_hook_state: "x_state e \<in> settling_states \<Longrightarrow> x_state e \<in> hook_states"
  by (auto simp: settling_states_def hook_states_def)

lemma hook_effect_settling:
  assumes he: "hook_effect e e1" and s: "x_state e \<in> settling_states"
  shows "x_state e1 \<in> settling_states"
  using he s unfolding hook_effect_def settling_states_def
  by (auto simp: States_defs)

lemma hook_effect_rejecting:
  assumes he: "hook_effect e e1" and s: "x_state e \<in> settling_states"
    and r: "x_state e \<in> rejecting_states"
  shows "x_state e1 = x_state e"
  using he s r unfolding hook_effect_def settling_states_def rejecting_states_def
  by (auto simp: States_defs)

lemma rejecting_settled:
  assumes "x_state e \<in> settling_states" and "x_state e \<in> rejecting_states"
  shows "isSettled e" and "x_state e = States_canceled \<or> x_state e = States_failed"
  using assms
  by (auto simp: settling_states_def rejecting_states_def bit_defs States_defs)

lemma wellformed_chained:
  assumes "wellformed e" and "chain e \<noteq> NoChain"
  shows "x_state e \<in> settling_states" and "\<not> x_isInside e" and "n_onPhaseFinally e = 0"
    and "hooks_counted e" and "promise_consistent e"
  using assms by (simp_all add: wellformed_def)

lemma wellformed_waiting:
  assumes "x_state e \<in> settling_states" and "\<not> x_isInside e" and "n_onPhaseFinally e = 0"
    and "hooks_counted e" and "promise_consistent e"
  shows "wellformed (e\<lparr>chain := c\<rparr>)"
  using assms settling_idle [OF assms(1)] by (simp add: wellformed_def)

lemma tick_default:
  assumes w: "wellformed e" and c: "chain e = DefaultReady"
  shows "\<exists>e1. step n env Tick e = Some e1 \<and> wellformed e1
           \<and> x_state e \<le> x_state e1 \<and> same_promise e e1
           \<and> (x_state e \<in> rejecting_states \<longrightarrow>
                 n_onPhaseDo e1 = n_onPhaseDo e \<and> x_state e1 \<in> rejecting_states)"
proof -
  have s: "x_state e \<in> settling_states" and ni: "\<not> x_isInside e"
    and z: "n_onPhaseFinally e = 0" and hc: "hooks_counted e" and pc: "promise_consistent e"
    using wellformed_chained [OF w] c by simp_all
  have ih: "in_hook e" using settling_in_hook [OF s] .
  obtain out e1 where r: "uu_executePhaseDoDefaultAsync (hooks n env) env e = Some (out, e1)"
    and he: "hook_effect e e1"
    using doDefaultAsync_effect [OF hooks_runner ih] by blast
  define c1 where "c1 = (case out of Raise ex \<Rightarrow> CatchReady ex | Return q \<Rightarrow> chain_of q)"
  have run: "step n env Tick e = Some (e1\<lparr>chain := c1\<rparr>)"
    using c r by (cases out) (simp_all add: step_def c1_def)
  have ni1: "\<not> x_isInside e1" and z1: "n_onPhaseFinally e1 = 0"
    using he ni z by (simp_all add: hook_effect_def)
  have w1: "wellformed (e1\<lparr>chain := c1\<rparr>)"
    using wellformed_waiting [OF hook_effect_settling [OF he s] ni1 z1
        hook_effect_counted [OF he ih hc] hook_effect_promise [OF he ih pc]] .
  have rj: "x_state e \<in> rejecting_states \<Longrightarrow> x_state e1 = x_state e"
    using hook_effect_rejecting [OF he s] by simp
  show ?thesis
    using run w1 hook_effect_state_le [OF he ih] promise_kept_same [of e e1] he rj
    by (auto simp: hook_effect_def)
qed

lemma tick_catch:
  assumes w: "wellformed e" and c: "chain e = CatchReady ex"
  shows "\<exists>e1. step n env Tick e = Some e1 \<and> wellformed e1
           \<and> x_state e \<le> x_state e1 \<and> same_promise e e1
           \<and> (x_state e \<in> rejecting_states \<longrightarrow>
                 n_onPhaseDo e1 = n_onPhaseDo e \<and> x_state e1 \<in> rejecting_states)"
proof -
  have s: "x_state e \<in> settling_states" and ni: "\<not> x_isInside e"
    and z: "n_onPhaseFinally e = 0" and hc: "hooks_counted e" and pc: "promise_consistent e"
    using wellformed_chained [OF w] c by simp_all
  obtain out e1 where q: "uu_rejectOrLog env ex e = Some (out, e1)"
    and p: "x_state e1 \<in> settling_states" "hooks_counted e1" "promise_consistent e1"
      "advance e e1" "n_onPhaseDo e1 = n_onPhaseDo e" "n_onPhaseFinally e1 = n_onPhaseFinally e"
    and keep: "isSettled e \<longrightarrow> x_state e1 = x_state e \<and> x_error e1 = x_error e
               \<and> x_result e1 = x_result e"
    using rejectOrLog_settles [OF settling_hook_state [OF s] hc pc, of env ex] by blast
  have run: "step n env Tick e = Some (e1\<lparr>chain := FinallyReady\<rparr>)"
    using c q by (simp add: step_def)
  have ni1: "\<not> x_isInside e1" and z1: "n_onPhaseFinally e1 = 0"
    using p ni z by (simp_all add: advance_def)
  have w1: "wellformed (e1\<lparr>chain := FinallyReady\<rparr>)"
    using wellformed_waiting [OF p(1) ni1 z1 p(2,3)] .
  have rj: "x_state e \<in> rejecting_states \<Longrightarrow> x_state e1 = x_state e"
    using rejecting_settled(1) [OF s] keep by simp
  show ?thesis
    using run w1 advance_state [OF p(4)] advance_promise [OF p(4)] rj p(5) by auto
qed

lemma tick_finally:
  assumes w: "wellformed e" and c: "chain e = FinallyReady"
  shows "\<exists>e1. step n env Tick e = Some e1 \<and> wellformed e1
           \<and> x_state e \<le> x_state e1 \<and> same_promise e e1
           \<and> (x_state e \<in> rejecting_states \<longrightarrow>
                 n_onPhaseDo e1 = n_onPhaseDo e \<and> x_state e1 \<in> rejecting_states)"
proof -
  have s: "x_state e \<in> settling_states" and ni: "\<not> x_isInside e"
    and z: "n_onPhaseFinally e = 0" and hc: "hooks_counted e" and pc: "promise_consistent e"
    using wellformed_chained [OF w] c by simp_all
  define e0 where "e0 = e\<lparr>chain := NoChain, x_isInside := True\<rparr>"
  have s0: "x_state e0 \<in> settling_states" and hc0: "hooks_counted e0"
    and pc0: "promise_consistent e0" and z0: "n_onPhaseFinally e0 = 0"
    using s hc pc z by (simp_all add: e0_def)
  obtain out e1 where r: "uu_executePhaseFinally (hooks n env) env e0 = Some (out, e1)"
    and k: "out = Return RVoid \<and> x_state e1 \<in> finished_states
              \<or> (\<exists>x. out = Raise x) \<and> warnEnabled env \<and> x_state e1 \<in> outcome_states"
    and hc1: "hooks_counted e1" and pc1: "promise_consistent e1" and a1: "advance e0 e1"
    and c1: "n_onPhaseDo e1 = n_onPhaseDo e0"
    and j1: "x_state e0 = States_canceled \<or> x_state e0 = States_failed \<longrightarrow> isRejected e1"
    using finally_entered [OF hooks_runner s0 hc0 pc0 z0, of n env env] by blast
  have fo: "x_state e1 \<in> finished_states \<or> x_state e1 \<in> outcome_states" using k by blast
  have nc1: "chain e1 = NoChain" using a1 by (simp add: advance_def e0_def)
  have le1: "x_state e \<le> x_state e1" and sp: "same_promise e e1"
    using a1 by (simp_all add: advance_def e0_def)
  have cd: "n_onPhaseDo e1 = n_onPhaseDo e" using c1 by (simp add: e0_def)
  have rj: "x_state e1 \<in> rejecting_states" if rs: "x_state e \<in> rejecting_states"
  proof -
    have "isRejected e1" using j1 rejecting_settled(2) [OF s rs] by (simp add: e0_def)
    then show ?thesis by (rule rejected_rejecting [OF _ fo])
  qed
  from k show ?thesis
  proof (elim disjE conjE exE)
    assume o: "out = Return RVoid" and f: "x_state e1 \<in> finished_states"
    have run: "step n env Tick e = Some (e1\<lparr>x_isInside := False\<rparr>)"
      using c ni r o by (simp add: step_def uu_callInside_def e0_def)
    show ?thesis
      using run wellformed_left [OF finished_idle [OF f] nc1 hc1 pc1] le1 sp cd rj by simp
  next
    fix x assume o: "out = Raise x" and so: "x_state e1 \<in> outcome_states"
    have run: "step n env Tick e = Some e1"
      using c ni r o by (simp add: step_def uu_callInside_def e0_def)
    show ?thesis
      using run wellformed_stuck [OF so nc1 hc1 pc1] le1 sp cd rj by simp
  qed
qed

lemma wellformed_chain:
  assumes "wellformed e" and "chain e \<noteq> NoChain"
  shows "wellformed (e\<lparr>chain := c\<rparr>)"
  using assms by (simp add: wellformed_def)

lemma step_wellformed:
  assumes w: "wellformed e"
  shows "\<exists>e1. step n env ev e = Some e1 \<and> wellformed e1
           \<and> x_state e \<le> x_state e1 \<and> same_promise e e1
           \<and> (invalid env \<longrightarrow> x_state e \<in> rejecting_states \<longrightarrow>
                 n_onPhaseDo e1 = n_onPhaseDo e \<and> x_state e1 \<in> rejecting_states)"
proof (cases ev)
  case (Calls c)
  obtain out e1 where "perform (hooks n env) env c e = Some (out, e1)" "wellformed e1"
    "x_state e \<le> x_state e1" "same_promise e e1"
    "invalid env \<longrightarrow> x_state e \<in> rejecting_states \<longrightarrow>
       n_onPhaseDo e1 = n_onPhaseDo e \<and> x_state e1 \<in> rejecting_states"
    using perform_idle [OF hooks_runner w, of n env env c] by blast
  then show ?thesis using Calls by (simp add: step_def)
next
  case Fulfil
  then show ?thesis
    using w wellformed_chain [OF w] by (auto simp: step_def)
next
  case (RejectWith r)
  then show ?thesis
    using w wellformed_chain [OF w] by (auto simp: step_def)
next
  case Tick
  show ?thesis
  proof (cases "chain e")
    case NoChain then show ?thesis using Tick w by (simp add: step_def)
  next
    case AwaitDo then show ?thesis using Tick w by (simp add: step_def)
  next
    case DefaultReady then show ?thesis using Tick tick_default [OF w, of n env] by auto
  next
    case AwaitDefault then show ?thesis using Tick w by (simp add: step_def)
  next
    case (CatchReady ex) then show ?thesis using Tick tick_catch [OF w, of ex n env] by auto
  next
    case FinallyReady then show ?thesis using Tick tick_finally [OF w, of n env] by auto
  qed
qed

lemma wellformed_constructor: "wellformed constructor"
  by (simp add: wellformed_def constructor_def idle_states_def hooks_counted_def
        finished_states_def promise_consistent_def States_defs)

lemma reach_wellformed: "reach env e \<Longrightarrow> wellformed e"
proof (induction rule: reach.induct)
  case reach_new
  show ?case by (rule wellformed_constructor)
next
  case (reach_step e n ev e1)
  then show ?case using step_wellformed [of e n env ev] by auto
qed

lemma reach_invalid:
  "reach env e \<Longrightarrow> invalid env \<Longrightarrow> n_onPhaseDo e = 0 \<and> x_state e \<in> rejecting_states"
proof (induction rule: reach.induct)
  case reach_new
  show ?case by (simp add: constructor_def rejecting_states_def)
next
  case (reach_step e n ev e1)
  then show ?case
    using step_wellformed [OF reach_wellformed [OF reach_step.hyps(1)], of n env ev] by auto
qed

section \<open>Classification of the rejection reason\<close>

text \<open>
  C2, as amended. \<^verbatim>\<open>__reject\<close> is a total function of the reason: a falsy reason
  (\<^verbatim>\<open>undefined\<close>, \<^verbatim>\<open>null\<close>, the empty string, \<^verbatim>\<open>0\<close>, \<^verbatim>\<open>NaN\<close>, \<^verbatim>\<open>false\<close>) is replaced by a
  \<^verbatim>\<open>UserError\<close> with the message "Canceled" and the execution is canceled; a non-empty
  string is wrapped into a \<^verbatim>\<open>UserError\<close> with that message and the execution is canceled;
  an \<^verbatim>\<open>Error\<close> is kept, and the execution is canceled when it is a \<^verbatim>\<open>UserError\<close> and not a
  \<^verbatim>\<open>RuntimeError\<close>, failed otherwise; any other truthy value is replaced by an
  \<^verbatim>\<open>ArgumentInvalidTypeError\<close> and the execution is failed. The four cases cover every
  value. In each case the result is cleared.
\<close>

theorem reject_classification:
  "(falsy reason \<longrightarrow>
      uu_reject reason e =
        e\<lparr>x_state := States_canceled,
          x_error := Made (n_objects e) UserError ''Canceled'',
          x_result := User VUndefined, n_objects := Suc (n_objects e)\<rparr>) \<and>
   (\<forall>s. reason = User (VStr s) \<and> s \<noteq> [] \<longrightarrow>
      uu_reject reason e =
        e\<lparr>x_state := States_canceled,
          x_error := Made (n_objects e) UserError s,
          x_result := User VUndefined, n_objects := Suc (n_objects e)\<rparr>) \<and>
   (instanceofError reason \<longrightarrow>
      uu_reject reason e =
        e\<lparr>x_state := (if instanceofUserError reason \<and> \<not> instanceofRuntimeError reason
                       then States_canceled else States_failed),
          x_error := reason, x_result := User VUndefined\<rparr>) \<and>
   (\<not> falsy reason \<and> typeof reason \<noteq> ''string'' \<and> \<not> instanceofError reason \<longrightarrow>
      uu_reject reason e =
        e\<lparr>x_state := States_failed,
          x_error := Made (n_objects e) ArgumentInvalidTypeError (typeof reason),
          x_result := User VUndefined, n_objects := Suc (n_objects e)\<rparr>) \<and>
   (falsy reason \<or> (\<exists>s. reason = User (VStr s) \<and> s \<noteq> []) \<or> instanceofError reason \<or>
    (\<not> falsy reason \<and> typeof reason \<noteq> ''string'' \<and> \<not> instanceofError reason))"
proof (cases reason)
  case (User v)
  then show ?thesis by (cases v) (auto simp: uu_reject_def Let_def)
next
  case (Made k c m)
  then show ?thesis by (auto simp: uu_reject_def Let_def)
qed

theorem reject_classification_witness:
  "\<not> falsy (User (VObject 3 True)) \<and> typeof (User (VObject 3 True)) \<noteq> ''string'' \<and>
   \<not> instanceofError (User (VObject 3 True)) \<and>
   x_state (uu_reject (User (VObject 3 True)) constructor) = States_failed \<and>
   x_error (uu_reject (User (VObject 3 True)) constructor) = Made 0 ArgumentInvalidTypeError ''object'' \<and>
   instanceofError (User (VError 5 True False ''no'')) \<and>
   x_state (uu_reject (User (VError 5 True False ''no'')) constructor) = States_canceled \<and>
   falsy (User VUndefined) \<and>
   x_error (uu_reject (User VUndefined) constructor) = Made 0 UserError ''Canceled''"
  using reject_classification [of "User (VObject 3 True)" constructor]
    reject_classification [of "User (VError 5 True False ''no'')" constructor]
    reject_classification [of "User VUndefined" constructor]
  by (simp add: constructor_def)

text \<open>
  C2 as stated fails: \<^verbatim>\<open>false\<close> is neither a string nor an \<^verbatim>\<open>Error\<close> (and is not
  \<^verbatim>\<open>undefined\<close>), and \<^verbatim>\<open>__reject(false)\<close> cancels with the "Canceled" user error instead of
  failing with an invalid-argument error.
\<close>

theorem reject_false_counterexample:
  "typeof (User (VBool False)) \<noteq> ''string'' \<and> \<not> instanceofError (User (VBool False)) \<and>
   User (VBool False) \<noteq> User VUndefined \<and>
   x_state (uu_reject (User (VBool False)) constructor) = States_canceled \<and>
   x_error (uu_reject (User (VBool False)) constructor) = Made 0 UserError ''Canceled'' \<and>
   \<not> isFailed (uu_reject (User (VBool False)) constructor)"
  by (simp add: uu_reject_def constructor_def isFailed_def States_defs)

section \<open>A second rejection\<close>




section \<open>Example runs\<close>

lemmas eval_defs = step_def perform_def hooks_def execute_def executeWill_def reject_def
  done_method_def get_promise_def uu_getPromiseControl_def uu_createPromiseControl_def
  uu_callInside_def uu_executeSyncAction_def uu_executeAsyncAction_def
  uu_executePhaseInit_def uu_executePhaseWill_def uu_executePhaseDo_def
  uu_executePhaseDoDefaultAsync_def uu_executePhaseFinally_def settle_promise_def
  uu_rejectOrLog_def log_finally_error_def resolved_with_def uu_reject_def uu_assertStates_def throw_new_def andThen_def tryCatch_def
  returns_def chain_of_def constructor_def base_env_def bit_defs States_defs Let_def

lemma reach_did_example: "reach base_env did_example"
proof -
  have "step 0 base_env (Calls Execute) constructor = Some did_example"
    by (simp add: eval_defs did_example_def)
  then show ?thesis using reach_step [OF reach_new] by blast
qed

lemma idle_finished:
  assumes "x_state e \<in> idle_states" and "isFinished e"
  shows "x_state e \<in> finished_states"
  using assms by (auto simp: idle_states_def finished_states_def bit_defs States_defs)

lemma finished_states_outcome:
  assumes "x_state e \<in> finished_states"
  shows "isFinished e \<and> (isDone e \<and> \<not> isCanceled e \<and> \<not> isFailed e
         \<or> \<not> isDone e \<and> isCanceled e \<and> \<not> isFailed e
         \<or> \<not> isDone e \<and> \<not> isCanceled e \<and> isFailed e)"
  using assms by (auto simp: finished_states_def bit_defs States_defs)

lemma finished_stays:
  assumes "x_state e \<in> finished_states" and "x_state e1 \<in> idle_states"
    and "x_state e \<le> x_state e1"
  shows "isFinished e1"
  using assms by (auto simp: idle_states_def finished_states_def bit_defs States_defs)

section \<open>The finished bit and the outcome\<close>

text \<open>
  C1. In every reachable execution with the \<open>finished\<close> bit set, exactly one of the
  bits \<open>did\<close>, \<open>canceled\<close>, \<open>failed\<close> is set; and every event (a call of a public method,
  the settlement of an awaited promise, a handler of the promise chain) returns, at any
  depth given to the hooks, and leaves the \<open>finished\<close> bit set when it was set.
\<close>

theorem finished_outcome_exclusive:
  assumes "reach env e"
  shows "(isFinished e \<longrightarrow>
            isDone e \<and> \<not> isCanceled e \<and> \<not> isFailed e
          \<or> \<not> isDone e \<and> isCanceled e \<and> \<not> isFailed e
          \<or> \<not> isDone e \<and> \<not> isCanceled e \<and> isFailed e)
       \<and> (\<forall>n ev. \<exists>e1. step n env ev e = Some e1 \<and> (isFinished e \<longrightarrow> isFinished e1))"
proof -
  have w: "wellformed e" using reach_wellformed [OF assms] .
  then have idle: "x_state e \<in> idle_states" by (simp add: wellformed_def)
  have a: "isFinished e \<Longrightarrow> x_state e \<in> finished_states"
    using idle_finished [OF idle] .
  have b: "\<exists>e1. step n env ev e = Some e1 \<and> (isFinished e \<longrightarrow> isFinished e1)" for n ev
  proof -
    obtain e1 where s: "step n env ev e = Some e1" and w1: "wellformed e1"
      and le: "x_state e \<le> x_state e1"
      using step_wellformed [OF w, of n env ev] by blast
    have "x_state e1 \<in> idle_states" using w1 by (simp add: wellformed_def)
    then have "isFinished e \<longrightarrow> isFinished e1" using a finished_stays le by blast
    then show ?thesis using s by simp
  qed
  show ?thesis using a finished_states_outcome [of e] b by blast
qed

theorem finished_outcome_exclusive_witness:
  "reach base_env did_example \<and> isFinished did_example \<and> isDone did_example \<and>
   \<not> isCanceled did_example \<and> \<not> isFailed did_example \<and>
   (\<exists>e1. step 0 base_env (Calls (Reject (VStr ''late''))) did_example = Some e1
         \<and> isFinished e1)"
proof -
  have f: "isFinished did_example" by (simp add: did_example_def bit_defs States_defs)
  have d: "isDone did_example" by (simp add: did_example_def bit_defs States_defs)
  show ?thesis
    using finished_outcome_exclusive [OF reach_did_example] reach_did_example f d by blast
qed

section \<open>Validation failure\<close>

lemma execute_invalid_unstarted:
  assumes rh: "hook_runner rh" and w: "wellformed e" and st: "x_state e = States_unstarted"
    and i: "invalid env"
  shows "\<exists>out e1. execute rh env e = Some (out, e1) \<and> isRejected e1
           \<and> n_onPhaseDo e1 = n_onPhaseDo e
           \<and> (out = Return RThis \<or> (\<exists>x. out = Raise x) \<and> warnEnabled env)
           \<and> (out = Return RThis \<longrightarrow> isSync env \<longrightarrow> isFinished e1)"
proof -
  have le: "x_state e \<le> States_will" and lt: "x_state e < States_will"
    and ng: "\<not> States_will < x_state e"
    using st by (simp_all add: States_defs)
  define e0 where "e0 = e\<lparr>x_isInside := True\<rparr>"
  have d0: "driving e0" and ni: "\<not> x_isInside e"
    using driving_inside [OF w le] by (simp_all add: e0_def)
  have lt0: "x_state e0 < States_will" using lt by (simp add: e0_def)
  show ?thesis
  proof (cases "isSync env")
    case True
    obtain out e1 where r: "uu_executeSyncAction rh env e0 = Some (out, e1)"
      and k: "out = Return RVoid \<and> x_state e1 \<in> finished_states
                \<or> (\<exists>x. out = Raise x) \<and> warnEnabled env \<and> x_state e1 \<in> outcome_states"
      and v1: "n_onPhaseDo e1 = n_onPhaseDo e0 \<and> isRejected e1"
      using sync_action [OF rh d0, of env] i lt0 by blast
    from k show ?thesis
    proof (elim disjE conjE exE)
      assume o: "out = Return RVoid" and f: "x_state e1 \<in> finished_states"
      have run: "execute rh env e = Some (Return RThis, e1\<lparr>x_isInside := False\<rparr>)"
        using ng True ni r o
        by (simp add: execute_def uu_callInside_def andThen_def returns_def e0_def)
      show ?thesis
        using run v1 finished_states_outcome [OF f]
        by (simp add: e0_def isRejected_def isFinished_def)
    next
      fix x assume o: "out = Raise x" and we: "warnEnabled env"
      have run: "execute rh env e = Some (Raise x, e1)"
        using ng True ni r o
        by (simp add: execute_def uu_callInside_def andThen_def returns_def e0_def)
      show ?thesis using run v1 we by (simp add: e0_def)
    qed
  next
    case False
    obtain out e1 where r: "uu_executeAsyncAction rh env e0 = Some (out, e1)"
      and k: "out = Return RVoid \<and> x_state e1 \<in> settling_states \<and> chain e1 \<noteq> NoChain
                \<or> (\<exists>x. out = Raise x) \<and> warnEnabled env \<and> x_state e1 \<in> outcome_states
                   \<and> chain e1 = chain e0"
      and v1: "n_onPhaseDo e1 = n_onPhaseDo e0
                 \<and> x_state e1 \<in> {States_canceled, States_failed}"
      using async_action [OF rh d0, of env] i lt0 by blast
    have rj: "isRejected e1" using v1 by (auto simp: bit_defs States_defs)
    from k show ?thesis
    proof (elim disjE conjE exE)
      assume o: "out = Return RVoid"
      have run: "execute rh env e = Some (Return RThis, e1\<lparr>x_isInside := False\<rparr>)"
        using ng False ni r o
        by (simp add: execute_def uu_callInside_def andThen_def returns_def e0_def)
      show ?thesis
        using run v1 rj False by (simp add: e0_def isRejected_def)
    next
      fix x assume o: "out = Raise x" and we: "warnEnabled env"
      have run: "execute rh env e = Some (Raise x, e1)"
        using ng False ni r o
        by (simp add: execute_def uu_callInside_def andThen_def returns_def e0_def)
      show ?thesis using run v1 rj we by (simp add: e0_def)
    qed
  qed
qed

lemma rejecting_not_done:
  assumes "x_state e \<in> rejecting_states"
  shows "\<not> isDone e \<and> (isSettled e \<longrightarrow> isRejected e)"
  using assms by (auto simp: rejecting_states_def bit_defs States_defs)

text \<open>
  C3. Let \<^verbatim>\<open>validate()\<close> return a list with first element \<open>v\<close>. Then
  \<^verbatim>\<open>__executePhaseWill\<close>, entered below the state \<open>will\<close>, rejects the execution with \<open>v\<close>
  without calling \<^verbatim>\<open>_onPhaseWill\<close> or \<^verbatim>\<open>_onPhaseDo\<close>, and \<^verbatim>\<open>__executePhaseDo\<close> called next
  does nothing; when \<open>v\<close> is an \<^verbatim>\<open>Error\<close> it is the recorded error, and the state is
  \<open>canceled\<close> if \<open>v\<close> is a \<^verbatim>\<open>UserError\<close> and not a \<^verbatim>\<open>RuntimeError\<close>, \<open>failed\<close> otherwise.
  Moreover, in every reachable execution of such an action \<^verbatim>\<open>_onPhaseDo\<close> has never run,
  the execution is not done, and it is rejected whenever it is settled; \<^verbatim>\<open>execute()\<close> on
  it while unstarted leaves it rejected, with \<^verbatim>\<open>_onPhaseDo\<close> not run, whether the call
  returns (then a synchronous execution is finished) or, with the logger at level
  \<^verbatim>\<open>warn\<close>, throws the \<^verbatim>\<open>TypeError\<close> of one of its two catch blocks.
\<close>

theorem validation_failure_rejects:
  assumes val: "validate env = Some (v # errs)"
  shows "(x_state e < States_will \<longrightarrow>
            uu_executePhaseWill rh env e
              = Some (Return RVoid, uu_reject (User v) (e\<lparr>x_state := States_will\<rparr>))
          \<and> isRejected (uu_reject (User v) (e\<lparr>x_state := States_will\<rparr>))
          \<and> n_onPhaseWill (uu_reject (User v) (e\<lparr>x_state := States_will\<rparr>)) = n_onPhaseWill e
          \<and> n_onPhaseDo (uu_reject (User v) (e\<lparr>x_state := States_will\<rparr>)) = n_onPhaseDo e
          \<and> uu_executePhaseDo rh env (uu_reject (User v) (e\<lparr>x_state := States_will\<rparr>))
              = Some (Return RNull, uu_reject (User v) (e\<lparr>x_state := States_will\<rparr>))
          \<and> (\<forall>i u r m. v = VError i u r m \<longrightarrow>
                x_error (uu_reject (User v) (e\<lparr>x_state := States_will\<rparr>)) = User v \<and>
                x_state (uu_reject (User v) (e\<lparr>x_state := States_will\<rparr>))
                  = (if u \<and> \<not> r then States_canceled else States_failed)))
       \<and> (reach env e \<longrightarrow>
            n_onPhaseDo e = 0 \<and> \<not> isDone e \<and> (isSettled e \<longrightarrow> isRejected e)
          \<and> (x_state e = States_unstarted \<longrightarrow>
               (\<exists>out e1. execute (hooks n env) env e = Some (out, e1)
                     \<and> isRejected e1 \<and> n_onPhaseDo e1 = 0
                     \<and> (out = Return RThis \<or> (\<exists>x. out = Raise x) \<and> warnEnabled env)
                     \<and> (out = Return RThis \<longrightarrow> isSync env \<longrightarrow> isFinished e1))))"
proof -
  define e1 where "e1 = uu_reject (User v) (e\<lparr>x_state := States_will\<rparr>)"
  have i: "invalid env" using val by (auto simp: invalid_def)
  have s1: "x_state e1 = States_canceled \<or> x_state e1 = States_failed"
    using uu_reject_state [of "User v" "e\<lparr>x_state := States_will\<rparr>"] by (simp add: e1_def)
  have a1: "x_state e < States_will \<Longrightarrow> uu_executePhaseWill rh env e = Some (Return RVoid, e1)"
    using val by (simp add: uu_executePhaseWill_def e1_def)
  have a2: "isRejected e1" using s1 by (auto simp: bit_defs States_defs)
  have a3: "n_onPhaseWill e1 = n_onPhaseWill e" "n_onPhaseDo e1 = n_onPhaseDo e"
    by (simp_all add: e1_def uu_reject_fields)
  have a4: "uu_executePhaseDo rh env e1 = Some (Return RNull, e1)"
    using s1 by (auto simp: uu_executePhaseDo_def States_defs)
  have a5: "\<forall>i u r m. v = VError i u r m \<longrightarrow>
                x_error e1 = User v \<and>
                x_state e1 = (if u \<and> \<not> r then States_canceled else States_failed)"
    by (simp add: e1_def uu_reject_def)
  have b: "n_onPhaseDo e = 0 \<and> \<not> isDone e \<and> (isSettled e \<longrightarrow> isRejected e)
          \<and> (x_state e = States_unstarted \<longrightarrow>
               (\<exists>out e1. execute (hooks n env) env e = Some (out, e1)
                     \<and> isRejected e1 \<and> n_onPhaseDo e1 = 0
                     \<and> (out = Return RThis \<or> (\<exists>x. out = Raise x) \<and> warnEnabled env)
                     \<and> (out = Return RThis \<longrightarrow> isSync env \<longrightarrow> isFinished e1)))"
    if r: "reach env e"
  proof -
    have n: "n_onPhaseDo e = 0" and rs: "x_state e \<in> rejecting_states"
      using reach_invalid [OF r i] by simp_all
    have "\<exists>out e1. execute (hooks n env) env e = Some (out, e1)
                     \<and> isRejected e1 \<and> n_onPhaseDo e1 = 0
                     \<and> (out = Return RThis \<or> (\<exists>x. out = Raise x) \<and> warnEnabled env)
                     \<and> (out = Return RThis \<longrightarrow> isSync env \<longrightarrow> isFinished e1)"
      if st: "x_state e = States_unstarted"
      using execute_invalid_unstarted [OF hooks_runner reach_wellformed [OF r] st i, of n env] n
      by simp
    then show ?thesis using n rejecting_not_done [OF rs] by blast
  qed
  show ?thesis using a1 a2 a3 a4 a5 b unfolding e1_def by blast
qed

theorem validation_failure_rejects_witness:
  "validate invalid_env = Some [VError 7 False False ''bad''] \<and>
   x_state constructor < States_will \<and> reach invalid_env constructor \<and>
   uu_executePhaseWill (hooks 0 invalid_env) invalid_env constructor
     = Some (Return RVoid,
             constructor\<lparr>x_state := States_failed, x_error := User (VError 7 False False ''bad'')\<rparr>) \<and>
   (\<exists>e1. execute (hooks 0 invalid_env) invalid_env constructor = Some (Return RThis, e1)
         \<and> isRejected e1 \<and> n_onPhaseDo e1 = 0 \<and> isFinished e1)"
proof -
  have h: "validate invalid_env = Some [VError 7 False False ''bad'']"
    by (simp add: invalid_env_def)
  have l: "x_state constructor < States_will" "x_state constructor = States_unstarted"
    by (simp_all add: constructor_def States_defs)
  have s: "isSync invalid_env" by (simp add: invalid_env_def base_env_def)
  have u: "uu_reject (User (VError 7 False False ''bad'')) (constructor\<lparr>x_state := States_will\<rparr>)
      = constructor\<lparr>x_state := States_failed, x_error := User (VError 7 False False ''bad'')\<rparr>"
    by (simp add: uu_reject_def constructor_def)
  have x: "execute (hooks 0 invalid_env) invalid_env constructor
      = Some (Return RThis,
              constructor\<lparr>x_state := 192, x_error := User (VError 7 False False ''bad''),
                n_onPhaseInit := 1, n_onPhaseFinally := 1\<rparr>)"
    by (simp add: eval_defs invalid_env_def)
  show ?thesis
    using validation_failure_rejects [OF h, of constructor "hooks 0 invalid_env" 0]
      h l s u x reach_new [of invalid_env]
    by auto
qed

section \<open>The promise\<close>










section \<open>Phases advance and hooks run once\<close>

lemma done_states:
  assumes "x_state e \<in> idle_states" and "isDone e"
  shows "x_state e = States_did \<or> x_state e = States_did OR States_finished"
  using assms by (auto simp: idle_states_def finished_states_def bit_defs States_defs)

lemma hooks_counted_done:
  assumes "hooks_counted e"
    and "x_state e = States_did \<or> x_state e = States_did OR States_finished"
  shows "n_onPhaseInit e = 1 \<and> n_onPhaseWill e = 1 \<and> n_onPhaseDo e = 1"
  using assms(2,1) by (elim disjE) (simp_all add: hooks_counted_def)

lemma hooks_counted_finally:
  assumes "hooks_counted e" and "x_state e \<in> finished_states"
  shows "n_onPhaseFinally e = 1"
  using assms by (simp add: hooks_counted_def)

lemma reach_rejected_example: "reach base_env rejected_example"
proof -
  have "step 0 base_env (Calls (Reject (VStr ''x''))) constructor = Some rejected_example"
    by (simp add: eval_defs rejected_example_def)
  then show ?thesis using reach_step [OF reach_new] by blast
qed

text \<open>
  C5, as amended. In every reachable execution each of the hooks \<^verbatim>\<open>_onPhaseInit\<close>,
  \<^verbatim>\<open>_onPhaseWill\<close>, \<^verbatim>\<open>_onPhaseDo\<close>, \<^verbatim>\<open>_onPhaseFinally\<close> has run at most once, and not at
  all while the state is below its phase (for \<^verbatim>\<open>_onPhaseFinally\<close>: below the outcomes); an
  execution that is done has run \<^verbatim>\<open>_onPhaseInit\<close>, \<^verbatim>\<open>_onPhaseWill\<close> and \<^verbatim>\<open>_onPhaseDo\<close>
  exactly once, and one that is finished has run \<^verbatim>\<open>_onPhaseFinally\<close> exactly once; no
  event ever lowers the state, whose values are ordered unstarted, init, will, do,
  outcomes, finished. A rejected execution need not have entered any phase. And
  \<^verbatim>\<open>__executePhaseInit\<close>, \<^verbatim>\<open>__executePhaseWill\<close> and \<^verbatim>\<open>__executePhaseDo\<close>, called on any
  execution whose state is at or past their phase, return without changing anything.
\<close>

theorem phases_run_once:
  "(reach env e \<longrightarrow>
      n_onPhaseInit e \<le> 1 \<and> n_onPhaseWill e \<le> 1 \<and> n_onPhaseDo e \<le> 1 \<and>
      n_onPhaseFinally e \<le> 1 \<and>
      (x_state e < States_init \<longrightarrow> n_onPhaseInit e = 0) \<and>
      (x_state e < States_will \<longrightarrow> n_onPhaseWill e = 0) \<and>
      (x_state e < States_do \<longrightarrow> n_onPhaseDo e = 0) \<and>
      (x_state e < States_did \<longrightarrow> n_onPhaseFinally e = 0) \<and>
      (isDone e \<longrightarrow> n_onPhaseInit e = 1 \<and> n_onPhaseWill e = 1 \<and> n_onPhaseDo e = 1) \<and>
      (isFinished e \<longrightarrow> n_onPhaseFinally e = 1) \<and>
      (\<forall>n ev. \<exists>e1. step n env ev e = Some e1 \<and> x_state e \<le> x_state e1)) \<and>
   (States_init \<le> x_state e \<longrightarrow> uu_executePhaseInit rh env e = Some (Return RVoid, e)) \<and>
   (States_will \<le> x_state e \<longrightarrow> uu_executePhaseWill rh env e = Some (Return RVoid, e)) \<and>
   (States_do \<le> x_state e \<longrightarrow> uu_executePhaseDo rh env e = Some (Return RNull, e))"
proof -
  have a: "\<exists>e1. step n env ev e = Some e1 \<and> x_state e \<le> x_state e1"
    if r: "reach env e" for n ev
    using step_wellformed [OF reach_wellformed [OF r], of n env ev] by blast
  have b: "hooks_counted e" and i: "x_state e \<in> idle_states" if r: "reach env e"
    using reach_wellformed [OF r] by (simp_all add: wellformed_def)
  have b1: "n_onPhaseInit e \<le> 1 \<and> n_onPhaseWill e \<le> 1 \<and> n_onPhaseDo e \<le> 1 \<and>
      n_onPhaseFinally e \<le> 1 \<and>
      (x_state e < States_init \<longrightarrow> n_onPhaseInit e = 0) \<and>
      (x_state e < States_will \<longrightarrow> n_onPhaseWill e = 0) \<and>
      (x_state e < States_do \<longrightarrow> n_onPhaseDo e = 0) \<and>
      (x_state e < States_did \<longrightarrow> n_onPhaseFinally e = 0)" if r: "reach env e"
    using b [OF r] by (simp add: hooks_counted_def)
  have b2: "isDone e \<longrightarrow> n_onPhaseInit e = 1 \<and> n_onPhaseWill e = 1 \<and> n_onPhaseDo e = 1"
    if r: "reach env e"
    using hooks_counted_done [OF b [OF r]] done_states [OF i [OF r]] by blast
  have b3: "isFinished e \<longrightarrow> n_onPhaseFinally e = 1" if r: "reach env e"
    using hooks_counted_finally [OF b [OF r]] idle_finished [OF i [OF r]] by blast
  have c: "(States_init \<le> x_state e \<longrightarrow> uu_executePhaseInit rh env e = Some (Return RVoid, e)) \<and>
   (States_will \<le> x_state e \<longrightarrow> uu_executePhaseWill rh env e = Some (Return RVoid, e)) \<and>
   (States_do \<le> x_state e \<longrightarrow> uu_executePhaseDo rh env e = Some (Return RNull, e))"
    by (simp add: uu_executePhaseInit_def uu_executePhaseWill_def uu_executePhaseDo_def)
  show ?thesis
    using a b1 b2 b3 c by blast
qed

theorem phases_run_once_witness:
  "reach base_env did_example \<and> isDone did_example \<and> isFinished did_example \<and>
   n_onPhaseInit did_example = 1 \<and> n_onPhaseWill did_example = 1 \<and>
   n_onPhaseDo did_example = 1 \<and> n_onPhaseFinally did_example = 1 \<and>
   States_init \<le> x_state did_example \<and>
   uu_executePhaseInit (hooks 0 base_env) base_env did_example = Some (Return RVoid, did_example) \<and>
   (\<exists>e1. step 0 base_env (Calls Execute) did_example = Some e1
         \<and> x_state did_example \<le> x_state e1)"
proof -
  have s: "States_init \<le> x_state did_example" by (simp add: did_example_def States_defs)
  have n: "isDone did_example" "isFinished did_example"
    by (simp_all add: did_example_def bit_defs States_defs)
  show ?thesis
    using phases_run_once [of base_env did_example "hooks 0 base_env"] reach_did_example s n
    by blast
qed

text \<open>
  C5 as stated fails: the state does not pass through init, will and do before every
  outcome. \<^verbatim>\<open>reject("x")\<close> on a new execution takes the state from \<open>unstarted\<close> straight to
  \<open>canceled\<close> with \<open>finished\<close> (160): none of \<^verbatim>\<open>_onPhaseInit\<close>, \<^verbatim>\<open>_onPhaseWill\<close>,
  \<^verbatim>\<open>_onPhaseDo\<close> has run, and \<^verbatim>\<open>_onPhaseFinally\<close> has run once.
\<close>

theorem outcome_without_phases_counterexample:
  "x_state constructor = States_unstarted \<and>
   step 0 base_env (Calls (Reject (VStr ''x''))) constructor = Some rejected_example \<and>
   reach base_env rejected_example \<and>
   x_state rejected_example = States_canceled OR States_finished \<and>
   isCanceled rejected_example \<and> isFinished rejected_example \<and>
   n_onPhaseInit rejected_example = 0 \<and> n_onPhaseWill rejected_example = 0 \<and>
   n_onPhaseDo rejected_example = 0 \<and> n_onPhaseFinally rejected_example = 1"
proof -
  have 1: "step 0 base_env (Calls (Reject (VStr ''x''))) constructor = Some rejected_example"
    by (simp add: eval_defs rejected_example_def)
  have 2: "x_state constructor = States_unstarted" by (simp add: constructor_def)
  have 3: "x_state rejected_example = States_canceled OR States_finished"
    "isCanceled rejected_example" "isFinished rejected_example"
    "n_onPhaseInit rejected_example = 0" "n_onPhaseWill rejected_example = 0"
    "n_onPhaseDo rejected_example = 0" "n_onPhaseFinally rejected_example = 1"
    by (simp_all add: rejected_example_def bit_defs States_defs)
  show ?thesis using 1 2 3 reach_rejected_example by simp
qed

end
